theory Spec2Isabelle
  imports
    Main
    "HOL-Library.Word"
    "HOL-Library.Char_ord"
    "HOL-Library.List_Lexorder"
    "HOL-Library.AList"
    "HOL-Library.Multiset"
begin

unbundle bit_operations_syntax

section \<open>Data model of the vmalert rule reconciliation (rules.go)\<close>

text \<open>
  Go strings are byte sequences and are compared bytewise; \<open>string\<close> with the orders of
  \<open>Char_ord\<close> and \<open>List_Lexorder\<close> is the same order.  A Go \<open>map[string]string\<close> is an
  association list with pairwise distinct keys; the order of the list is the (unspecified)
  order in which \<open>range\<close> visits the map.  \<open>m[k] = v\<close> is \<open>AList.update k v m\<close>, a read of
  a missing key gives the zero value \<open>''''\<close>, and a \<open>nil\<close> map is the empty list.
\<close>

type_synonym go_map = "(string \<times> string) list"

definition wf_map :: "go_map \<Rightarrow> bool" where
  "wf_map m = distinct (map fst m)"

definition lookup :: "go_map \<Rightarrow> string \<Rightarrow> string" where
  "lookup m k = (case map_of m k of None \<Rightarrow> [] | Some v \<Rightarrow> v)"

text \<open>The fields of \<open>vmv1beta1.Rule\<close>, \<open>RuleGroup\<close>, \<open>VMRule\<close> that rules.go reads or writes.\<close>

record rule =
  rule_Record :: string
  rule_Alert :: string
  rule_Expr :: string
  rule_For :: string
  rule_Labels :: go_map
  rule_Annotations :: go_map

record rule_group =
  grp_Name :: string
  grp_Rules :: "rule list"

record vmrule_spec =
  spec_Groups :: "rule_group list"

text \<open>\<open>vmrule_Deleting\<close> is \<open>!DeletionTimestamp.IsZero()\<close>.\<close>

record vmrule =
  vmrule_Name :: string
  vmrule_Namespace :: string
  vmrule_Deleting :: bool
  vmrule_Spec :: vmrule_spec
  vmrule_CurrentSyncError :: string

text \<open>
  The owning \<open>VMAlert\<close>.  Its methods \<open>IsUnmanaged\<close>, \<open>NeedDedupRules\<close>, \<open>PodLabels\<close> and
  \<open>AsOwner\<close> are declared outside rules.go; their results are fields here.
\<close>

datatype owner_reference =
  OwnerReference (or_APIVersion: string) (or_Kind: string) (or_Name: string) (or_UID: string)

record vmalert =
  cr_Name :: string
  cr_Namespace :: string
  cr_EnforcedNamespaceLabel :: string
  cr_IsUnmanaged :: bool
  cr_NeedDedupRules :: bool
  cr_PodLabels :: go_map
  cr_AsOwner :: "owner_reference list"

text \<open>\<open>corev1.ConfigMap\<close>: the metadata and data that rules.go sets or compares.\<close>

record configmap =
  cm_Name :: string
  cm_Namespace :: string
  cm_Labels :: go_map
  cm_Annotations :: go_map
  cm_OwnerReferences :: "owner_reference list"
  cm_Finalizers :: "string list"
  cm_Data :: go_map

definition zeroConfigMap :: configmap where
  "zeroConfigMap = \<lparr>cm_Name = [], cm_Namespace = [], cm_Labels = [], cm_Annotations = [],
     cm_OwnerReferences = [], cm_Finalizers = [], cm_Data = []\<rparr>"

datatype error = ErrNotFound | ErrAlreadyExists | ErrOther string | ErrWrap string error

text \<open>What the logger receives; the formatted text is kept as its arguments.\<close>

datatype log_entry =
    LogDeduplicating
  | LogDuplicateRule string string string
  | LogSelected nat nat "string list"
  | LogCreatingNew string
  | LogCreatingAdditional string
  | LogUpdating string
  | LogTriggerReload
  | LogReloadFailed

section \<open>Rule identity: FNV-1a over the fields of a rule\<close>

definition fnv_offset64 :: "64 word" where
  "fnv_offset64 = 14695981039346656037"

definition fnv_prime64 :: "64 word" where
  "fnv_prime64 = 1099511628211"

text \<open>\<open>h.Write(bytes)\<close> of \<open>hash/fnv\<close>'s \<open>New64a\<close>: xor the byte in, multiply by the prime.\<close>

fun fnv_write :: "64 word \<Rightarrow> string \<Rightarrow> 64 word" where
  "fnv_write h [] = h"
| "fnv_write h (c # cs) = fnv_write ((h XOR word_of_nat (of_char c)) * fnv_prime64) cs"

text \<open>
  \<open>sortMap\<close>: the entries of the map in \<open>range\<close> order, then \<open>sort.Slice\<close> by key.  The keys of
  a map are distinct, so the result of the (unstable) sort is the one of any sort by key.
\<close>

definition sortMap :: "go_map \<Rightarrow> (string \<times> string) list" where
  "sortMap m = sort_key fst m"

definition writeLabel :: "64 word \<Rightarrow> string \<times> string \<Rightarrow> 64 word" where
  "writeLabel h i = fnv_write (fnv_write (fnv_write h (fst i)) (snd i)) [CHR 0xFF]"

definition calculateRuleID :: "rule \<Rightarrow> 64 word" where
  "calculateRuleID r =
     (let h0 = fnv_write fnv_offset64 (rule_Expr r);
          h1 = (if rule_Record r \<noteq> []
                then fnv_write (fnv_write h0 ''recording'') (rule_Record r)
                else fnv_write (fnv_write h0 ''alerting'') (rule_Alert r));
          kv = sortMap (rule_Labels r)
      in foldl writeLabel h1 kv)"

text \<open>The bytes that \<open>calculateRuleID\<close> feeds to the hash, in the order it writes them.\<close>

definition ruleBytes :: "rule \<Rightarrow> string" where
  "ruleBytes r =
     rule_Expr r
     @ (if rule_Record r \<noteq> [] then ''recording'' @ rule_Record r else ''alerting'' @ rule_Alert r)
     @ concat (map (\<lambda>i. fst i @ snd i @ [CHR 0xFF]) (sortMap (rule_Labels r)))"

section \<open>Deduplication\<close>

text \<open>
  The body of the innermost loop of \<open>deduplicateRules\<close>: the state is \<open>uniqRules\<close>, the
  slice \<open>rules\<close> and the log lines written so far.
\<close>

definition dedupStep ::
  "string \<Rightarrow> string \<Rightarrow> 64 word set \<times> rule list \<times> log_entry list \<Rightarrow> rule
    \<Rightarrow> 64 word set \<times> rule list \<times> log_entry list" where
  "dedupStep vmRuleName grpName st r =
     (case st of (uniqRules, rules, logs) \<Rightarrow>
        let ruleID = calculateRuleID r in
        if ruleID \<in> uniqRules
        then (uniqRules, rules, logs @ [LogDuplicateRule (rule_Expr r) grpName vmRuleName])
        else (insert ruleID uniqRules, rules @ [r], logs))"

definition dedupGroup :: "string \<Rightarrow> rule_group \<Rightarrow> rule_group \<times> log_entry list" where
  "dedupGroup vmRuleName grp =
     (case foldl (dedupStep vmRuleName (grp_Name grp)) ({}, [], []) (grp_Rules grp) of
        (uniqRules, rules, logs) \<Rightarrow> (grp\<lparr>grp_Rules := rules\<rparr>, logs))"

definition dedupVMRule :: "vmrule \<Rightarrow> vmrule \<times> log_entry list" where
  "dedupVMRule v =
     (let gs = map (dedupGroup (vmrule_Name v)) (spec_Groups (vmrule_Spec v))
      in (v\<lparr>vmrule_Spec := (vmrule_Spec v)\<lparr>spec_Groups := map fst gs\<rparr>\<rparr>, concat (map snd gs)))"

definition deduplicateRules :: "vmrule list \<Rightarrow> vmrule list \<times> log_entry list" where
  "deduplicateRules origin =
     (let vs = map dedupVMRule origin in (map fst vs, concat (map snd vs)))"

text \<open>
  \<open>origin\<close> is a slice of pointers and the groups are rewritten in place; the pointers come
  from \<open>DeepCopy\<close>, one object each, so the result is the list of the rewritten objects.
\<close>

text \<open>
  The specification's wording of deduplication: a rule stays exactly when no rule at a
  smaller index of the same group has the same identity hash.
\<close>

definition keepFirstOccurrences :: "rule list \<Rightarrow> rule list" where
  "keepFirstOccurrences rs =
     map (\<lambda>i. rs ! i)
       (filter (\<lambda>i. \<forall>j \<in> set [0..<i]. calculateRuleID (rs ! j) \<noteq> calculateRuleID (rs ! i))
          [0..<length rs])"

section \<open>Rendering\<close>

text \<open>
  \<open>generateContent\<close>.  \<open>yaml.Marshal\<close> is a parameter: \<open>Inl\<close> its error, \<open>Inr\<close> the text.  The
  groups of \<open>promRule\<close> share their rule slices with the caller, so the caller sees the
  labels that were set; the first component of the result is the rule spec after the call.
\<close>

definition enforceNsLabel :: "string \<Rightarrow> string \<Rightarrow> rule \<Rightarrow> rule" where
  "enforceNsLabel enforcedNsLabel ns r =
     (let labels = (if length (rule_Labels r) = 0 then [] else rule_Labels r)
      in r\<lparr>rule_Labels := AList.update enforcedNsLabel ns labels\<rparr>)"

definition generateContent ::
  "(vmrule_spec \<Rightarrow> string + string) \<Rightarrow> vmrule_spec \<Rightarrow> string \<Rightarrow> string
    \<Rightarrow> vmrule_spec \<times> (error + string)" where
  "generateContent yamlMarshal promRule enforcedNsLabel ns =
     (let promRule =
        (if enforcedNsLabel \<noteq> []
         then promRule\<lparr>spec_Groups :=
                map (\<lambda>group. group\<lparr>grp_Rules := map (enforceNsLabel enforcedNsLabel ns) (grp_Rules group)\<rparr>)
                  (spec_Groups promRule)\<rparr>
         else promRule)
      in case yamlMarshal promRule of
           Inl err \<Rightarrow>
             (promRule, Inl (ErrWrap ''cannot unmarshal context for cm rule generation: '' (ErrOther err)))
         | Inr content \<Rightarrow> (promRule, Inr content))"

text \<open>\<open>err.Error()\<close> of the errors built here.\<close>

fun errorText :: "error \<Rightarrow> string" where
  "errorText ErrNotFound = ''not found''"
| "errorText ErrAlreadyExists = ''already exists''"
| "errorText (ErrOther s) = s"
| "errorText (ErrWrap s e) = s @ errorText e"

definition defAlert :: string where
  "defAlert =
      [CHR 0x0A]
      @ ''groups:'' @ [CHR 0x0A]
      @ ''- name: vmAlertGroup'' @ [CHR 0x0A]
      @ ''  rules:'' @ [CHR 0x0A]
      @ ''     - alert: error writing to remote'' @ [CHR 0x0A]
      @ ''       for: 1m'' @ [CHR 0x0A]
      @ ''       expr: rate(vmalert_remotewrite_errors_total[1m]) > 0'' @ [CHR 0x0A]
      @ ''       labels:'' @ [CHR 0x0A]
      @ ''         host: '' @ [CHR 0x22] @ ''{{ $labels.instance }}'' @ [CHR 0x22] @ [CHR 0x0A]
      @ ''       annotations:'' @ [CHR 0x0A]
      @ ''         summary: '' @ [CHR 0x22] @ '' error writing to remote writer from vmaler{{ $value|humanize }}'' @ [CHR 0x22] @ [CHR 0x0A]
      @ ''         description: '' @ [CHR 0x22] @ ''error writing to remote writer from vmaler {{$labels}}'' @ [CHR 0x22] @ [CHR 0x0A]
      @ ''         back: '' @ [CHR 0x22] @ ''error rate is ok at vmalert '' @ [CHR 0x22] @ [CHR 0x0A]"

section \<open>The world outside: cluster, logger, metrics\<close>

record world =
  w_ConfigMaps :: "configmap list"
  w_badConfigsTotal :: nat
  w_logs :: "log_entry list"
  w_statusWrites :: "(string \<times> vmrule list) list"
  w_podAnnotationUpdates :: "(go_map \<times> string) list"

definition logInfo :: "log_entry \<Rightarrow> world \<Rightarrow> world" where
  "logInfo e w = w\<lparr>w_logs := w_logs w @ [e]\<rparr>"

text \<open>
  The collaborators of rules.go that are declared elsewhere, as parameters: the constants
  \<open>MaxConfigMapDataSize\<close> and \<open>FinalizerName\<close>, \<open>VMRule.Validate\<close>, \<open>yaml.Marshal\<close>, the lists
  of rules that \<open>k8stools.VisitObjectsForSelectorsAtNs\<close> hands to its callback (or its
  error), the error of \<open>reconcile.StatusForChildObjects\<close> (each call is recorded in
  \<open>w_statusWrites\<close>), the client's \<open>Get\<close>, \<open>Create\<close> and \<open>Update\<close>, \<open>finalize.FreeIfNeeded\<close> and
  \<open>k8stools.UpdatePodAnnotations\<close>.

  Modelled from the spec: \<open>vmv1beta1.AddFinalizer\<close> is not part of the sources.  By the
  specification it carries the finalizer state of the existing object over to the desired
  one; it is the parameter \<open>env_AddFinalizer\<close>, which gives the finalizers of the desired
  object from the finalizers of the desired and of the existing object.
\<close>

record env =
  env_MaxConfigMapDataSize :: nat
  env_FinalizerName :: string
  env_Validate :: "vmrule \<Rightarrow> string option"
  env_yamlMarshal :: "vmrule_spec \<Rightarrow> string + string"
  env_VisitObjects :: "vmalert \<Rightarrow> error + vmrule list list"
  env_StatusForChildObjects :: "string \<Rightarrow> vmrule list \<Rightarrow> error option"
  env_AddFinalizer :: "string list \<Rightarrow> string list \<Rightarrow> string list"
  env_Get :: "string \<Rightarrow> string \<Rightarrow> world \<Rightarrow> error + configmap"
  env_Create :: "configmap \<Rightarrow> world \<Rightarrow> error option \<times> world"
  env_Update :: "configmap \<Rightarrow> world \<Rightarrow> error option \<times> world"
  env_FreeIfNeeded :: "configmap \<Rightarrow> world \<Rightarrow> error option \<times> world"
  env_UpdatePodAnnotations :: "go_map \<Rightarrow> string \<Rightarrow> world \<Rightarrow> error option \<times> world"

section \<open>Selection, validation and rendering of the rules\<close>

text \<open>
  The body of the loop over \<open>vmRules\<close> in \<open>selectRulesUpdateStatus\<close>; the state is the map
  \<open>rules\<close>, the kept prefix \<open>vmRules[:cnt]\<close> and \<open>badRules\<close>.
\<close>

definition selectStep ::
  "env \<Rightarrow> vmalert \<Rightarrow> go_map \<times> vmrule list \<times> vmrule list \<Rightarrow> vmrule
    \<Rightarrow> go_map \<times> vmrule list \<times> vmrule list" where
  "selectStep e cr st pRule =
     (case st of (rules, kept, badRules) \<Rightarrow>
        (case env_Validate e pRule of
          Some err \<Rightarrow> (rules, kept, badRules @ [pRule\<lparr>vmrule_CurrentSyncError := err\<rparr>])
        | None \<Rightarrow>
            (case generateContent (env_yamlMarshal e) (vmrule_Spec pRule)
                    (cr_EnforcedNamespaceLabel cr) (vmrule_Namespace pRule) of
               (spec, Inl err) \<Rightarrow>
                 (rules, kept,
                  badRules @ [pRule\<lparr>vmrule_Spec := spec, vmrule_CurrentSyncError :=
                     ''cannot generate content for rule: '' @ vmrule_Name pRule @ '', err :''
                       @ errorText err\<rparr>])
             | (spec, Inr content) \<Rightarrow>
                 (AList.update (vmrule_Namespace pRule @ ''-'' @ vmrule_Name pRule @ ''.yaml'')
                    content rules,
                  kept @ [pRule\<lparr>vmrule_Spec := spec\<rparr>], badRules))))"

definition injectDefault :: "go_map \<Rightarrow> go_map" where
  "injectDefault rules =
     (if length rules = 0 then AList.update ''default-vmalert.yaml'' defAlert rules else rules)"

text \<open>The callback given to the visitor: objects that are being deleted are skipped.\<close>

definition selectedRules :: "vmrule list list \<Rightarrow> vmrule list" where
  "selectedRules ruleLists = filter (\<lambda>item. \<not> vmrule_Deleting item) (concat ruleLists)"

definition renderRules :: "env \<Rightarrow> vmalert \<Rightarrow> vmrule list \<Rightarrow> go_map \<times> vmrule list \<times> vmrule list" where
  "renderRules e cr vmRules = foldl (selectStep e cr) ([], [], []) vmRules"

definition statusWrite :: "string \<Rightarrow> vmrule list \<Rightarrow> world \<Rightarrow> world" where
  "statusWrite parentObject objects w =
     w\<lparr>w_statusWrites := w_statusWrites w @ [(parentObject, objects)]\<rparr>"

definition selectRulesUpdateStatus :: "env \<Rightarrow> vmalert \<Rightarrow> world \<Rightarrow> (error + go_map) \<times> world" where
  "selectRulesUpdateStatus e cr w =
     (case env_VisitObjects e cr of
        Inl err \<Rightarrow> (Inl err, w)
      | Inr ruleLists \<Rightarrow>
         (let vmRules = selectedRules ruleLists;
              namespacedNames = map (\<lambda>item. vmrule_Namespace item @ ''/'' @ vmrule_Name item) vmRules;
              (vmRules, w) =
                (if cr_NeedDedupRules cr
                 then (case deduplicateRules vmRules of
                         (vs, logs) \<Rightarrow> (vs, w\<lparr>w_logs := w_logs w @ [LogDeduplicating] @ logs\<rparr>))
                 else (vmRules, w));
              (rules, vmRules, badRules) = renderRules e cr vmRules;
              rules = injectDefault rules;
              w = w\<lparr>w_badConfigsTotal := w_badConfigsTotal w + length badRules\<rparr>;
              parentObject = cr_Name cr @ ''.'' @ cr_Namespace cr @ ''.vmalert''
          in (case env_StatusForChildObjects e parentObject vmRules of
               Some err \<Rightarrow> (Inl err, statusWrite parentObject vmRules w)
             | None \<Rightarrow>
                 (case env_StatusForChildObjects e parentObject badRules of
                    Some err \<Rightarrow>
                      (Inl (ErrWrap ''cannot update bad rules statuses: '' err),
                       statusWrite parentObject badRules (statusWrite parentObject vmRules w))
                  | None \<Rightarrow>
                      (Inr rules,
                       (if length namespacedNames > 0
                        then logInfo (LogSelected (length namespacedNames) (length badRules)
                               namespacedNames)
                        else id)
                         (statusWrite parentObject badRules (statusWrite parentObject vmRules w)))))))"

section \<open>Packing the rule files into ConfigMaps\<close>

definition bucketSize :: "go_map \<Rightarrow> nat" where
  "bucketSize bucket = foldl (\<lambda>totalSize kv. totalSize + length (snd kv)) 0 bucket"

text \<open>The body of the loop over the sorted \<open>fileNames\<close>; the state is \<open>buckets\<close> and \<open>currBucketIndex\<close>.\<close>

definition packStep :: "nat \<Rightarrow> go_map \<Rightarrow> go_map list \<times> nat \<Rightarrow> string \<Rightarrow> go_map list \<times> nat" where
  "packStep maxSize ruleFiles st filename =
     (case st of (buckets, currBucketIndex) \<Rightarrow>
        let (buckets, currBucketIndex) =
              (if bucketSize (buckets ! currBucketIndex) + length (lookup ruleFiles filename) > maxSize
               then (buckets @ [[]], currBucketIndex + 1)
               else (buckets, currBucketIndex))
        in (buckets[currBucketIndex :=
              AList.update filename (lookup ruleFiles filename) (buckets ! currBucketIndex)],
            currBucketIndex))"

definition packBuckets :: "nat \<Rightarrow> go_map \<Rightarrow> go_map list" where
  "packBuckets maxSize ruleFiles =
     (let fileNames = sort (map fst ruleFiles)
      in fst (foldl (packStep maxSize ruleFiles) ([[]], 0) fileNames))"

text \<open>
  The specification's wording of the packer: one current bucket is kept; a file that does
  not fit into it closes it and opens a new current bucket with that file; otherwise the
  file joins the current bucket.  A closed bucket is part of the result as it is.
\<close>

fun nextFit :: "nat \<Rightarrow> go_map \<Rightarrow> (string \<times> string) list \<Rightarrow> go_map list" where
  "nextFit cap current [] = [current]"
| "nextFit cap current (entry # entries) =
     (if bucketSize current + length (snd entry) > cap
      then current # nextFit cap [entry] entries
      else nextFit cap (current @ [entry]) entries)"

text \<open>\<open>strconv.Itoa\<close> on a bucket index.\<close>

fun Itoa :: "nat \<Rightarrow> string" where
  "Itoa n = (if n < 10 then [char_of (48 + n)] else Itoa (n div 10) @ [char_of (48 + n mod 10)])"

definition managedByOperatorLabels :: go_map where
  "managedByOperatorLabels = [(''managed-by'', ''vm-operator'')]"

definition ruleConfigMapName :: "string \<Rightarrow> string" where
  "ruleConfigMapName vmName = ''vm-'' @ vmName @ ''-rulefiles''"

definition makeRulesConfigMap :: "string \<Rightarrow> vmalert \<Rightarrow> go_map \<Rightarrow> configmap" where
  "makeRulesConfigMap finalizerName cr ruleFiles =
     (let ruleLabels = foldl (\<lambda>m kv. AList.update (fst kv) (snd kv) m)
                         [(''vmalert-name'', cr_Name cr)] managedByOperatorLabels
      in \<lparr>cm_Name = ruleConfigMapName (cr_Name cr),
          cm_Namespace = cr_Namespace cr,
          cm_Labels = ruleLabels,
          cm_Annotations = [],
          cm_OwnerReferences = cr_AsOwner cr,
          cm_Finalizers = [finalizerName],
          cm_Data = ruleFiles\<rparr>)"

definition makeRulesConfigMaps :: "nat \<Rightarrow> string \<Rightarrow> vmalert \<Rightarrow> go_map \<Rightarrow> configmap list" where
  "makeRulesConfigMaps maxSize finalizerName cr ruleFiles =
     map (\<lambda>(i, bucket).
            let cm = makeRulesConfigMap finalizerName cr bucket
            in cm\<lparr>cm_Name := cm_Name cm @ ''-'' @ Itoa i\<rparr>)
       (enumerate 0 (packBuckets maxSize ruleFiles))"

section \<open>Diff of the current and the new ConfigMaps\<close>

text \<open>\<open>labels.Merge\<close> of apimachinery: a fresh map with the entries of both, the second wins.\<close>

definition labelsMerge :: "go_map \<Rightarrow> go_map \<Rightarrow> go_map" where
  "labelsMerge labels1 labels2 =
     foldl (\<lambda>m kv. AList.update (fst kv) (snd kv) m)
       (foldl (\<lambda>m kv. AList.update (fst kv) (snd kv) m) [] labels1) labels2"

text \<open>\<open>equality.Semantic.DeepEqual\<close> on two maps: the same keys with the same values (a \<open>nil\<close>
  and an empty map are equal).\<close>

definition deepEqualMap :: "go_map \<Rightarrow> go_map \<Rightarrow> bool" where
  "deepEqualMap a b = (\<forall>k \<in> set (map fst a) \<union> set (map fst b). map_of a k = map_of b k)"

definition diffStep ::
  "(string list \<Rightarrow> string list \<Rightarrow> string list) \<Rightarrow> configmap list
    \<Rightarrow> configmap list \<times> configmap list \<Rightarrow> configmap \<Rightarrow> configmap list \<times> configmap list" where
  "diffStep addFinalizer currentCMs st newCM =
     (case st of (toCreate, toUpdate) \<Rightarrow>
        (case find (\<lambda>currentCM. cm_Name newCM = cm_Name currentCM) currentCMs of
          None \<Rightarrow> (toCreate @ [newCM], toUpdate)
        | Some currentCM \<Rightarrow>
            let newCM = newCM\<lparr>cm_Annotations :=
                          labelsMerge (cm_Annotations currentCM) (cm_Annotations newCM)\<rparr>;
                newCM = newCM\<lparr>cm_Finalizers :=
                          addFinalizer (cm_Finalizers newCM) (cm_Finalizers currentCM)\<rparr>
            in if deepEqualMap (cm_Data newCM) (cm_Data currentCM)
                  \<and> deepEqualMap (cm_Labels newCM) (cm_Labels currentCM)
                  \<and> deepEqualMap (cm_Annotations newCM) (cm_Annotations currentCM)
               then (toCreate, toUpdate)
               else (toCreate, toUpdate @ [newCM])))"

definition rulesCMDiff ::
  "(string list \<Rightarrow> string list \<Rightarrow> string list) \<Rightarrow> configmap list \<Rightarrow> configmap list
    \<Rightarrow> configmap list \<times> configmap list" where
  "rulesCMDiff addFinalizer currentCMs newCMs =
     (if length newCMs = 0 then ([], [])
      else if length currentCMs = 0 then (newCMs, [])
      else foldl (diffStep addFinalizer currentCMs) ([], []) newCMs)"

text \<open>
  The specification's wording of the diff: the decision for one desired ConfigMap, and the
  object that is written on an update.
\<close>

datatype diff_decision = Create | Update | NoOp

definition mergeOnto ::
  "(string list \<Rightarrow> string list \<Rightarrow> string list) \<Rightarrow> configmap \<Rightarrow> configmap \<Rightarrow> configmap" where
  "mergeOnto addFinalizer existing desired =
     desired\<lparr>cm_Annotations := labelsMerge (cm_Annotations existing) (cm_Annotations desired),
             cm_Finalizers := addFinalizer (cm_Finalizers desired) (cm_Finalizers existing)\<rparr>"

definition diffDecision :: "configmap list \<Rightarrow> configmap \<Rightarrow> diff_decision" where
  "diffDecision current desired =
     (case filter (\<lambda>c. cm_Name c = cm_Name desired) current of
        [] \<Rightarrow> Create
      | existing # others \<Rightarrow>
          if map_of (cm_Data desired) = map_of (cm_Data existing)
             \<and> map_of (cm_Labels desired) = map_of (cm_Labels existing)
             \<and> map_of (labelsMerge (cm_Annotations existing) (cm_Annotations desired))
                 = map_of (cm_Annotations existing)
          then NoOp else Update)"

section \<open>Applying the ConfigMaps\<close>

definition IsNotFound :: "error \<Rightarrow> bool" where
  "IsNotFound err = (err = ErrNotFound)"

definition IsAlreadyExists :: "error \<Rightarrow> bool" where
  "IsAlreadyExists err = (err = ErrAlreadyExists)"

text \<open>
  The loop that reads the existing ConfigMaps into \<open>currentCMs\<close>, which was made with
  \<open>make([]corev1.ConfigMap, len(newConfigMaps))\<close>: an entry that is not found is skipped and
  keeps the zero value.
\<close>

fun getCurrentCMs ::
  "env \<Rightarrow> world \<Rightarrow> (nat \<times> configmap) list \<Rightarrow> configmap list \<Rightarrow> error + configmap list" where
  "getCurrentCMs e w [] currentCMs = Inr currentCMs"
| "getCurrentCMs e w ((idx, cm) # rest) currentCMs =
     (case env_Get e (cm_Namespace cm) (cm_Name cm) w of
        Inl err \<Rightarrow> if IsNotFound err then getCurrentCMs e w rest currentCMs else Inl err
      | Inr existCM \<Rightarrow> getCurrentCMs e w rest (currentCMs[idx := existCM]))"

text \<open>The two loops that create ConfigMaps differ in the log line and in the error text.\<close>

fun createConfigMaps ::
  "(string \<Rightarrow> log_entry) \<Rightarrow> string \<Rightarrow> env \<Rightarrow> configmap list \<Rightarrow> world \<Rightarrow> error option \<times> world" where
  "createConfigMaps logLine msg e [] w = (None, w)"
| "createConfigMaps logLine msg e (cm # cms) w =
     (case env_Create e cm (logInfo (logLine (cm_Name cm)) w) of
        (Some err, w) \<Rightarrow>
          if IsAlreadyExists err then createConfigMaps logLine msg e cms w
          else (Some (ErrWrap (msg @ cm_Name cm @ '', err: '') err), w)
      | (None, w) \<Rightarrow> createConfigMaps logLine msg e cms w)"

fun updateConfigMaps :: "env \<Rightarrow> configmap list \<Rightarrow> world \<Rightarrow> error option \<times> world" where
  "updateConfigMaps e [] w = (None, w)"
| "updateConfigMaps e (cm # cms) w =
     (case env_FreeIfNeeded e cm w of
        (Some err, w) \<Rightarrow> (Some err, w)
      | (None, w) \<Rightarrow>
          (case env_Update e cm (logInfo (LogUpdating (cm_Name cm)) w) of
             (Some err, w) \<Rightarrow>
               (Some (ErrWrap (''failed to update rules Configmap: '' @ cm_Name cm @ '', err: '') err), w)
           | (None, w) \<Rightarrow> updateConfigMaps e cms w))"

definition triggerReload :: "env \<Rightarrow> vmalert \<Rightarrow> world \<Rightarrow> world" where
  "triggerReload e cr w =
     (case env_UpdatePodAnnotations e (cr_PodLabels cr) (cr_Namespace cr) (logInfo LogTriggerReload w) of
        (Some err, w) \<Rightarrow> logInfo LogReloadFailed w
      | (None, w) \<Rightarrow> w)"

definition CreateOrUpdateRuleConfigMaps ::
  "env \<Rightarrow> vmalert \<Rightarrow> world \<Rightarrow> (error + string list) \<times> world" where
  "CreateOrUpdateRuleConfigMaps e cr w =
     (if cr_IsUnmanaged cr then (Inr [], w)
      else case selectRulesUpdateStatus e cr w of
        (Inl err, w) \<Rightarrow> (Inl err, w)
      | (Inr newRules, w) \<Rightarrow>
         (let newConfigMaps =
                makeRulesConfigMaps (env_MaxConfigMapDataSize e) (env_FinalizerName e) cr newRules;
              currentCMs = replicate (length newConfigMaps) zeroConfigMap
          in (case getCurrentCMs e w (enumerate 0 newConfigMaps) currentCMs of
               Inl err \<Rightarrow> (Inl err, w)
             | Inr currentCMs \<Rightarrow>
                 let newConfigMapNames = map cm_Name newConfigMaps
                 in if length currentCMs = 0
                    then (case createConfigMaps LogCreatingNew ''failed to create Configmap: ''
                                 e newConfigMaps w of
                            (Some err, w) \<Rightarrow> (Inl err, w)
                          | (None, w) \<Rightarrow> (Inr newConfigMapNames, w))
                    else
                      let newConfigMapNames = sort newConfigMapNames;
                          currentCMs = sort_key cm_Name currentCMs;
                          newConfigMaps = sort_key cm_Name newConfigMaps;
                          (toCreate, toUpdate) =
                             rulesCMDiff (env_AddFinalizer e) currentCMs newConfigMaps
                      in (case createConfigMaps LogCreatingAdditional
                                ''failed to create new rules Configmap: '' e toCreate w of
                           (Some err, w) \<Rightarrow> (Inl err, w)
                         | (None, w) \<Rightarrow>
                             (case updateConfigMaps e toUpdate w of
                                (Some err, w) \<Rightarrow> (Inl err, w)
                              | (None, w) \<Rightarrow>
                                  (Inr newConfigMapNames,
                                   if length toCreate > 0 \<or> length toUpdate > 0
                                   then triggerReload e cr w else w))))))"

section \<open>A cluster in memory\<close>

text \<open>
  An instance of the collaborators on which the functions above can be evaluated: the
  ConfigMaps of the cluster are the list \<open>w_ConfigMaps\<close>, every rule is valid, the selection
  gives one fixed list of rules, and the serialiser writes the group names and, rule by
  rule, the expression and the labels.
\<close>

definition sameObject :: "configmap \<Rightarrow> configmap \<Rightarrow> bool" where
  "sameObject a b = (cm_Namespace a = cm_Namespace b \<and> cm_Name a = cm_Name b)"

definition memGet :: "string \<Rightarrow> string \<Rightarrow> world \<Rightarrow> error + configmap" where
  "memGet ns name w =
     (case find (\<lambda>cm. cm_Namespace cm = ns \<and> cm_Name cm = name) (w_ConfigMaps w) of
        None \<Rightarrow> Inl ErrNotFound
      | Some cm \<Rightarrow> Inr cm)"

definition memCreate :: "configmap \<Rightarrow> world \<Rightarrow> error option \<times> world" where
  "memCreate cm w =
     (if list_ex (sameObject cm) (w_ConfigMaps w) then (Some ErrAlreadyExists, w)
      else (None, w\<lparr>w_ConfigMaps := w_ConfigMaps w @ [cm]\<rparr>))"

definition memUpdate :: "configmap \<Rightarrow> world \<Rightarrow> error option \<times> world" where
  "memUpdate cm w =
     (if list_ex (sameObject cm) (w_ConfigMaps w)
      then (None, w\<lparr>w_ConfigMaps := map (\<lambda>c. if sameObject cm c then cm else c) (w_ConfigMaps w)\<rparr>)
      else (Some ErrNotFound, w))"

definition memMarshal :: "vmrule_spec \<Rightarrow> string + string" where
  "memMarshal spec =
     Inr (concat (map (\<lambda>g. grp_Name g @ '':''
            @ concat (map (\<lambda>r. rule_Expr r @ ''{''
                 @ concat (map (\<lambda>kv. fst kv @ ''='' @ snd kv @ '','') (rule_Labels r)) @ ''};'')
                (grp_Rules g)))
          (spec_Groups spec)))"

definition memEnv :: "nat \<Rightarrow> vmrule list \<Rightarrow> env" where
  "memEnv maxSize selected =
     \<lparr>env_MaxConfigMapDataSize = maxSize,
      env_FinalizerName = ''apps.victoriametrics.com/finalizer'',
      env_Validate = (\<lambda>pRule. None),
      env_yamlMarshal = memMarshal,
      env_VisitObjects = (\<lambda>cr. Inr [selected]),
      env_StatusForChildObjects = (\<lambda>parentObject objects. None),
      env_AddFinalizer = (\<lambda>dst src. src),
      env_Get = memGet,
      env_Create = memCreate,
      env_Update = memUpdate,
      env_FreeIfNeeded = (\<lambda>cm w. (None, w)),
      env_UpdatePodAnnotations =
        (\<lambda>podLabels ns w. (None, w\<lparr>w_podAnnotationUpdates := w_podAnnotationUpdates w @ [(podLabels, ns)]\<rparr>))\<rparr>"

definition emptyWorld :: world where
  "emptyWorld = \<lparr>w_ConfigMaps = [], w_badConfigsTotal = 0, w_logs = [], w_statusWrites = [],
     w_podAnnotationUpdates = []\<rparr>"

section \<open>Example inputs\<close>

definition exampleRule :: "string \<Rightarrow> go_map \<Rightarrow> rule" where
  "exampleRule expr labels = \<lparr>rule_Record = [], rule_Alert = ''A'', rule_Expr = expr, rule_For = [],
     rule_Labels = labels, rule_Annotations = []\<rparr>"

definition exampleVMRule :: "string \<Rightarrow> string \<Rightarrow> rule list \<Rightarrow> vmrule" where
  "exampleVMRule ns name rules = \<lparr>vmrule_Name = name, vmrule_Namespace = ns, vmrule_Deleting = False,
     vmrule_Spec = \<lparr>spec_Groups = [\<lparr>grp_Name = ''g'', grp_Rules = rules\<rparr>]\<rparr>,
     vmrule_CurrentSyncError = []\<rparr>"

definition exampleVMAlert :: vmalert where
  "exampleVMAlert = \<lparr>cr_Name = ''x'', cr_Namespace = ''default'', cr_EnforcedNamespaceLabel = [],
     cr_IsUnmanaged = False, cr_NeedDedupRules = False, cr_PodLabels = [], cr_AsOwner = []\<rparr>"

definition exampleEnforced :: vmrule_spec where
  "exampleEnforced = \<lparr>spec_Groups = [\<lparr>grp_Name = ''g'', grp_Rules = [exampleRule ''up'' [(''ns'', ''other'')]]\<rparr>]\<rparr>"

definition rejectAll :: "env \<Rightarrow> env" where
  "rejectAll e = e\<lparr>env_Validate := (\<lambda>pRule. Some ''invalid'')\<rparr>"

definition exampleCM :: "string \<Rightarrow> go_map \<Rightarrow> go_map \<Rightarrow> configmap" where
  "exampleCM name annotations data = \<lparr>cm_Name = name, cm_Namespace = ''default'',
     cm_Labels = [(''managed-by'', ''vm-operator'')], cm_Annotations = annotations,
     cm_OwnerReferences = [], cm_Finalizers = [], cm_Data = data\<rparr>"

section \<open>Properties of the rule identity\<close>

lemma fnv_write_append: "fnv_write h (a @ b) = fnv_write (fnv_write h a) b"
  by (induction a arbitrary: h) simp_all

lemma foldl_writeLabel:
  "foldl writeLabel h kv = fnv_write h (concat (map (\<lambda>i. fst i @ snd i @ [CHR 0xFF]) kv))"
  by (induction kv arbitrary: h) (simp_all add: writeLabel_def fnv_write_append)

lemma calculateRuleID_bytes: "calculateRuleID r = fnv_write fnv_offset64 (ruleBytes r)"
  by (simp add: calculateRuleID_def ruleBytes_def Let_def foldl_writeLabel fnv_write_append)

lemma sortMap_perm:
  assumes d: "distinct (map fst a)" and m: "mset a = mset b"
  shows "sortMap a = sortMap b"
proof -
  have s: "set a = set b" using m by (rule mset_eq_setD)
  have m': "mset (map fst a) = mset (map fst b)" using m by (metis mset_map)
  have d': "distinct (map fst b)" using d m' by (metis mset_eq_imp_distinct_iff)
  have inj: "inj_on fst (set a \<union> set b)" using d s by (simp add: distinct_map)
  have "map fst (sort_key fst a) = map fst (sort_key fst b)"
  proof (rule sorted_distinct_set_unique)
    show "sorted (map fst (sort_key fst a))" by simp
    show "sorted (map fst (sort_key fst b))" by simp
    show "distinct (map fst (sort_key fst a))" using d by (simp add: distinct_map)
    show "distinct (map fst (sort_key fst b))" using d' by (simp add: distinct_map)
    show "set (map fst (sort_key fst a)) = set (map fst (sort_key fst b))" using s by simp
  qed
  moreover have "inj_on fst (set (sort_key fst a) \<union> set (sort_key fst b))" using inj by simp
  ultimately show ?thesis unfolding sortMap_def by (simp add: inj_on_map_eq_map)
qed

lemma fnv_prime64_inverse: "fnv_prime64 * 14886173955864302971 = 1"
  by (simp add: fnv_prime64_def)

lemma fnv_mult_inj: "x * fnv_prime64 = y * fnv_prime64 \<Longrightarrow> x = y"
proof -
  assume "x * fnv_prime64 = y * fnv_prime64"
  then have "x * (fnv_prime64 * 14886173955864302971) = y * (fnv_prime64 * 14886173955864302971)"
    by (simp only: mult.assoc [symmetric])
  then show "x = y" by (simp only: fnv_prime64_inverse mult_1_right)
qed

lemma fnv_write_inj: "fnv_write h s = fnv_write h' s \<Longrightarrow> h = h'"
proof (induction s arbitrary: h h')
  case Nil then show ?case by simp
next
  case (Cons c cs)
  from Cons.prems have "fnv_write ((h XOR word_of_nat (of_char c)) * fnv_prime64) cs
      = fnv_write ((h' XOR word_of_nat (of_char c)) * fnv_prime64) cs" by simp
  then have "(h XOR word_of_nat (of_char c)) * fnv_prime64 = (h' XOR word_of_nat (of_char c)) * fnv_prime64"
    by (rule Cons.IH)
  then have "h XOR word_of_nat (of_char c) = h' XOR word_of_nat (of_char c)" by (rule fnv_mult_inj)
  then show ?case by (metis bit.xor_left_self word_bw_comms(3))
qed

lemma byte_word_inj:
  assumes "(word_of_nat (of_char a) :: 64 word) = word_of_nat (of_char b)"
  shows "a = b"
proof -
  have "unat (word_of_nat (of_char a) :: 64 word) = unat (word_of_nat (of_char b) :: 64 word)"
    using assms by simp
  then have "(of_char a :: nat) mod 2 ^ 64 = of_char b mod 2 ^ 64"
    by (simp add: unat_of_nat)
  moreover have "(of_char a :: nat) < 2 ^ 64" "(of_char b :: nat) < 2 ^ 64"
    by (rule less_trans [OF nat_of_char_less_256], simp)+
  ultimately have "(of_char a :: nat) = of_char b" by simp
  then show ?thesis by simp
qed

lemma fnv_write_one_byte:
  assumes "a \<noteq> b"
  shows "fnv_write h (p @ a # s) \<noteq> fnv_write h (p @ b # s)"
proof
  assume e: "fnv_write h (p @ a # s) = fnv_write h (p @ b # s)"
  let ?g = "fnv_write h p"
  from e have "fnv_write ((?g XOR word_of_nat (of_char a)) * fnv_prime64) s
             = fnv_write ((?g XOR word_of_nat (of_char b)) * fnv_prime64) s"
    by (simp add: fnv_write_append)
  then have "(?g XOR word_of_nat (of_char a)) * fnv_prime64 = (?g XOR word_of_nat (of_char b)) * fnv_prime64"
    by (rule fnv_write_inj)
  then have "?g XOR word_of_nat (of_char a) = ?g XOR word_of_nat (of_char b)"
    by (rule fnv_mult_inj)
  then have "(word_of_nat (of_char a) :: 64 word) = word_of_nat (of_char b)"
    by (metis bit.xor_left_self)
  then have "a = b" by (rule byte_word_inj)
  with assms show False by simp
qed

lemma keepFirstOccurrences_snoc:
  "keepFirstOccurrences (rs @ [r]) =
     keepFirstOccurrences rs @ (if calculateRuleID r \<in> calculateRuleID ` set rs then [] else [r])"
proof -
  let ?n = "length rs"
  let ?P = "\<lambda>xs i. \<forall>j \<in> set [0..<i]. calculateRuleID (xs ! j) \<noteq> calculateRuleID (xs ! i)"
  have f: "filter (?P (rs @ [r])) [0..<?n] = filter (?P rs) [0..<?n]"
    by (rule filter_cong) (auto simp: nth_append)
  have m: "map (\<lambda>i. (rs @ [r]) ! i) (filter (?P rs) [0..<?n]) = map (\<lambda>i. rs ! i) (filter (?P rs) [0..<?n])"
    by (rule map_cong) (auto simp: nth_append)
  have "?P (rs @ [r]) ?n \<longleftrightarrow> (\<forall>j<?n. calculateRuleID (rs ! j) \<noteq> calculateRuleID r)"
    by (auto simp: nth_append)
  also have "\<dots> \<longleftrightarrow> calculateRuleID r \<notin> calculateRuleID ` set rs"
    by (metis (no_types, lifting) image_iff in_set_conv_nth)
  finally have l: "?P (rs @ [r]) ?n \<longleftrightarrow> calculateRuleID r \<notin> calculateRuleID ` set rs" .
  show ?thesis
    unfolding keepFirstOccurrences_def using f m l by (simp del: set_upt)
qed

lemma dedup_loop:
  "foldl (dedupStep v g) ({}, [], []) rs = (U, R, L) \<Longrightarrow>
     U = calculateRuleID ` set rs \<and> R = keepFirstOccurrences rs \<and> length R + length L = length rs"
proof (induction rs arbitrary: U R L rule: rev_induct)
  case Nil
  then show ?case by (simp add: keepFirstOccurrences_def)
next
  case (snoc r rs)
  obtain U' R' L' where s: "foldl (dedupStep v g) ({}, [], []) rs = (U', R', L')"
    by (cases "foldl (dedupStep v g) ({}, [], []) rs") auto
  from snoc.IH [OF s] have ih: "U' = calculateRuleID ` set rs" "R' = keepFirstOccurrences rs"
     "length R' + length L' = length rs" by blast+
  from snoc.prems s have "dedupStep v g (U', R', L') r = (U, R, L)" by simp
  then show ?case
  proof (cases "calculateRuleID r \<in> U'")
    case True
    with \<open>dedupStep v g (U', R', L') r = (U, R, L)\<close>
    have "U = U'" "R = R'" "length L = Suc (length L')"
      by (auto simp: dedupStep_def Let_def)
    with True ih show ?thesis by (auto simp: keepFirstOccurrences_snoc)
  next
    case False
    with \<open>dedupStep v g (U', R', L') r = (U, R, L)\<close>
    have "U = insert (calculateRuleID r) U'" "R = R' @ [r]" "L = L'"
      by (auto simp: dedupStep_def Let_def)
    with False ih show ?thesis by (auto simp: keepFirstOccurrences_snoc)
  qed
qed

lemma dedupGroup_rules: "fst (dedupGroup v g) = g\<lparr>grp_Rules := keepFirstOccurrences (grp_Rules g)\<rparr>"
proof -
  obtain U R L where s: "foldl (dedupStep v (grp_Name g)) ({}, [], []) (grp_Rules g) = (U, R, L)"
    by (cases "foldl (dedupStep v (grp_Name g)) ({}, [], []) (grp_Rules g)") auto
  from dedup_loop [OF s] show ?thesis by (simp add: dedupGroup_def s)
qed

lemma keepFirstOccurrences_ids:
  "distinct (map calculateRuleID (keepFirstOccurrences rs))"
proof (induction rs rule: rev_induct)
  case Nil then show ?case by (simp add: keepFirstOccurrences_def)
next
  case (snoc r rs)
  have "set (keepFirstOccurrences rs) \<subseteq> set rs"
    by (auto simp: keepFirstOccurrences_def)
  then show ?case using snoc by (auto simp: keepFirstOccurrences_snoc)
qed

lemma keepFirstOccurrences_distinct:
  "distinct (map calculateRuleID rs) \<Longrightarrow> keepFirstOccurrences rs = rs"
proof (induction rs rule: rev_induct)
  case Nil then show ?case by (simp add: keepFirstOccurrences_def)
next
  case (snoc r rs)
  then show ?case by (auto simp: keepFirstOccurrences_snoc)
qed

lemma keepFirstOccurrences_idem:
  "keepFirstOccurrences (keepFirstOccurrences rs) = keepFirstOccurrences rs"
  by (rule keepFirstOccurrences_distinct) (rule keepFirstOccurrences_ids)

lemma dedupVMRule_rules:
  "fst (dedupVMRule v) =
     v\<lparr>vmrule_Spec := (vmrule_Spec v)\<lparr>spec_Groups :=
         map (\<lambda>g. g\<lparr>grp_Rules := keepFirstOccurrences (grp_Rules g)\<rparr>) (spec_Groups (vmrule_Spec v))\<rparr>\<rparr>"
  by (simp add: dedupVMRule_def Let_def dedupGroup_rules comp_def)

lemma deduplicateRules_rules:
  "fst (deduplicateRules origin) =
     map (\<lambda>v. v\<lparr>vmrule_Spec := (vmrule_Spec v)\<lparr>spec_Groups :=
            map (\<lambda>g. g\<lparr>grp_Rules := keepFirstOccurrences (grp_Rules g)\<rparr>)
              (spec_Groups (vmrule_Spec v))\<rparr>\<rparr>) origin"
  by (simp add: deduplicateRules_def Let_def dedupVMRule_rules comp_def)

lemma exampleRule_ids: "calculateRuleID (exampleRule ''a'' []) \<noteq> calculateRuleID (exampleRule ''b'' [])"
proof -
  have "ruleBytes (exampleRule ''a'' []) = [] @ CHR ''a'' # ''alertingA''"
    and "ruleBytes (exampleRule ''b'' []) = [] @ CHR ''b'' # ''alertingA''"
    by (simp_all add: ruleBytes_def exampleRule_def sortMap_def)
  then show ?thesis
    using fnv_write_one_byte [of "CHR ''a''" "CHR ''b''" fnv_offset64 "[]" "''alertingA''"]
    by (simp only: calculateRuleID_bytes) simp
qed

text \<open>
  C4, first half, and what holds of the second: the hash does not depend on the order in
  which the label map is visited; and two rules whose hashed bytes have the same length and
  differ at exactly one position have different hashes.
\<close>

theorem calculateRuleID_label_order:
  assumes "distinct (map fst ls)" and "mset ls' = mset ls"
  shows "calculateRuleID (r\<lparr>rule_Labels := ls'\<rparr>) = calculateRuleID (r\<lparr>rule_Labels := ls\<rparr>)
       \<and> (\<forall>r1 r2 p a b s. a \<noteq> b \<and> ruleBytes r1 = p @ a # s \<and> ruleBytes r2 = p @ b # s
             \<longrightarrow> calculateRuleID r1 \<noteq> calculateRuleID r2)"
proof -
  have "sortMap ls = sortMap ls'"
    using assms by (intro sortMap_perm) simp_all
  then have "calculateRuleID (r\<lparr>rule_Labels := ls'\<rparr>) = calculateRuleID (r\<lparr>rule_Labels := ls\<rparr>)"
    by (simp add: calculateRuleID_def Let_def)
  moreover have "calculateRuleID r1 \<noteq> calculateRuleID r2"
    if "a \<noteq> b" "ruleBytes r1 = p @ a # s" "ruleBytes r2 = p @ b # s" for r1 r2 p a b s
    using that fnv_write_one_byte [of a b fnv_offset64 p s] by (simp add: calculateRuleID_bytes)
  ultimately show ?thesis by blast
qed

theorem calculateRuleID_label_order_witness:
  "distinct (map fst [(''a'', ''1''), (''b'', ''2'')])
   \<and> mset [(''b'', ''2''), (''a'', ''1'')] = mset [(''a'', ''1''), (''b'', ''2'')]
   \<and> calculateRuleID (exampleRule ''up'' [(''b'', ''2''), (''a'', ''1'')])
       = calculateRuleID (exampleRule ''up'' [(''a'', ''1''), (''b'', ''2'')])
   \<and> calculateRuleID (exampleRule ''a'' []) \<noteq> calculateRuleID (exampleRule ''b'' [])"
proof -
  have d: "distinct (map fst [(''a'', ''1''), (''b'', ''2'')])" by simp
  have m: "mset [(''b'', ''2''), (''a'', ''1'')] = mset [(''a'', ''1''), (''b'', ''2'')]" by simp
  have b: "CHR ''a'' \<noteq> CHR ''b'' \<and> ruleBytes (exampleRule ''a'' []) = [] @ CHR ''a'' # ''alertingA''
          \<and> ruleBytes (exampleRule ''b'' []) = [] @ CHR ''b'' # ''alertingA''"
    by (simp add: ruleBytes_def exampleRule_def sortMap_def)
  have u: "(exampleRule ''up'' [])\<lparr>rule_Labels := X\<rparr> = exampleRule ''up'' X" for X
    by (simp add: exampleRule_def)
  note t = calculateRuleID_label_order [OF d m, of "exampleRule ''up'' []"]
  from t have "calculateRuleID (exampleRule ''up'' [(''b'', ''2''), (''a'', ''1'')])
       = calculateRuleID (exampleRule ''up'' [(''a'', ''1''), (''b'', ''2'')])"
    unfolding u by (rule conjunct1)
  moreover from t have "\<forall>r1 r2 p a b s. a \<noteq> b \<and> ruleBytes r1 = p @ a # s \<and> ruleBytes r2 = p @ b # s
             \<longrightarrow> calculateRuleID r1 \<noteq> calculateRuleID r2"
    by (rule conjunct2)
  then have "calculateRuleID (exampleRule ''a'' []) \<noteq> calculateRuleID (exampleRule ''b'' [])"
    using b by blast
  ultimately show ?thesis using d m by blast
qed

text \<open>
  C4, second half as stated, fails: the fields are written to the hash one after the
  other with nothing between the expression, the kind and the name, nor between a label
  key and its value.  Two recording rules with different expressions and names, and two
  rules with different label keys and values, have the same hash.
\<close>

theorem calculateRuleID_collision_counterexample:
  "rule_Expr \<lparr>rule_Record = ''recordingy'', rule_Alert = [], rule_Expr = ''x'', rule_For = [],
               rule_Labels = [], rule_Annotations = []\<rparr>
     \<noteq> rule_Expr \<lparr>rule_Record = ''y'', rule_Alert = [], rule_Expr = ''xrecording'', rule_For = [],
               rule_Labels = [], rule_Annotations = []\<rparr>
   \<and> calculateRuleID \<lparr>rule_Record = ''recordingy'', rule_Alert = [], rule_Expr = ''x'', rule_For = [],
               rule_Labels = [], rule_Annotations = []\<rparr>
     = calculateRuleID \<lparr>rule_Record = ''y'', rule_Alert = [], rule_Expr = ''xrecording'', rule_For = [],
               rule_Labels = [], rule_Annotations = []\<rparr>
   \<and> calculateRuleID (exampleRule ''up'' [(''ab'', ''c'')])
     = calculateRuleID (exampleRule ''up'' [(''a'', ''bc'')])"
  by (simp add: calculateRuleID_bytes ruleBytes_def sortMap_def exampleRule_def)

section \<open>Properties of deduplication\<close>

text \<open>
  C5: \<open>deduplicateRules\<close> returns a value for every input; the rule sources and their groups
  stay in place with their names, and in every group exactly the rules stay that are the
  first in the group with their identity hash, in their order.
\<close>

theorem deduplicateRules_first_occurrence:
  "fst (deduplicateRules origin) =
     map (\<lambda>v. v\<lparr>vmrule_Spec := (vmrule_Spec v)\<lparr>spec_Groups :=
            map (\<lambda>g. g\<lparr>grp_Rules := keepFirstOccurrences (grp_Rules g)\<rparr>)
              (spec_Groups (vmrule_Spec v))\<rparr>\<rparr>) origin
   \<and> map (\<lambda>v. map grp_Name (spec_Groups (vmrule_Spec v))) (fst (deduplicateRules origin))
       = map (\<lambda>v. map grp_Name (spec_Groups (vmrule_Spec v))) origin"
proof
  show rules: "fst (deduplicateRules origin) =
     map (\<lambda>v. v\<lparr>vmrule_Spec := (vmrule_Spec v)\<lparr>spec_Groups :=
            map (\<lambda>g. g\<lparr>grp_Rules := keepFirstOccurrences (grp_Rules g)\<rparr>)
              (spec_Groups (vmrule_Spec v))\<rparr>\<rparr>) origin"
    by (rule deduplicateRules_rules)
  have "map grp_Name (map (\<lambda>g. g\<lparr>grp_Rules := keepFirstOccurrences (grp_Rules g)\<rparr>) gs)
          = map grp_Name gs" for gs
    by (induction gs) simp_all
  then show "map (\<lambda>v. map grp_Name (spec_Groups (vmrule_Spec v))) (fst (deduplicateRules origin))
       = map (\<lambda>v. map grp_Name (spec_Groups (vmrule_Spec v))) origin"
    unfolding rules by (simp add: comp_def)
qed

theorem deduplicateRules_first_occurrence_witness:
  "map (\<lambda>v. map grp_Rules (spec_Groups (vmrule_Spec v)))
     (fst (deduplicateRules
        [exampleVMRule ''ns'' ''r1''
           [exampleRule ''a'' [], exampleRule ''b'' [], exampleRule ''a'' []]]))
   = [[[exampleRule ''a'' [], exampleRule ''b'' []]]]"
proof -
  have k: "keepFirstOccurrences [exampleRule ''a'' [], exampleRule ''b'' [], exampleRule ''a'' []]
             = [exampleRule ''a'' [], exampleRule ''b'' []]"
    by code_simp
  from deduplicateRules_first_occurrence
    [of "[exampleVMRule ''ns'' ''r1''
           [exampleRule ''a'' [], exampleRule ''b'' [], exampleRule ''a'' []]]"]
  show ?thesis by (simp add: exampleVMRule_def k)
qed

text \<open>
  C10: a second run of \<open>deduplicateRules\<close> on its own result changes nothing, and after one
  run no group has two rules with the same identity hash.
\<close>

theorem deduplicateRules_idempotent:
  "fst (deduplicateRules (fst (deduplicateRules origin))) = fst (deduplicateRules origin)
   \<and> (\<forall>v \<in> set (fst (deduplicateRules origin)). \<forall>g \<in> set (spec_Groups (vmrule_Spec v)).
         distinct (map calculateRuleID (grp_Rules g)))"
proof
  show "fst (deduplicateRules (fst (deduplicateRules origin))) = fst (deduplicateRules origin)"
    by (simp add: deduplicateRules_rules comp_def keepFirstOccurrences_idem)
  show "\<forall>v \<in> set (fst (deduplicateRules origin)). \<forall>g \<in> set (spec_Groups (vmrule_Spec v)).
          distinct (map calculateRuleID (grp_Rules g))"
    by (auto simp: deduplicateRules_rules keepFirstOccurrences_ids)
qed

theorem deduplicateRules_idempotent_witness:
  "fst (deduplicateRules (fst (deduplicateRules
        [exampleVMRule ''ns'' ''r1'' [exampleRule ''a'' [], exampleRule ''a'' []]])))
     = [exampleVMRule ''ns'' ''r1'' [exampleRule ''a'' []]]
   \<and> distinct (map calculateRuleID [exampleRule ''a'' []])"
proof -
  have k: "keepFirstOccurrences [exampleRule ''a'' [], exampleRule ''a'' []] = [exampleRule ''a'' []]"
    by code_simp
  have "fst (deduplicateRules [exampleVMRule ''ns'' ''r1'' [exampleRule ''a'' [], exampleRule ''a'' []]])
      = [exampleVMRule ''ns'' ''r1'' [exampleRule ''a'' []]]"
    by (simp add: deduplicateRules_rules exampleVMRule_def k)
  with deduplicateRules_idempotent
    [of "[exampleVMRule ''ns'' ''r1'' [exampleRule ''a'' [], exampleRule ''a'' []]]"]
  show ?thesis by simp
qed

section \<open>Properties of the packer\<close>

lemma update_fresh: "k \<notin> fst ` set al \<Longrightarrow> AList.update k v al = al @ [(k, v)]"
  by (induction al) auto

lemma bucketSize_foldl:
  "foldl (\<lambda>totalSize kv. totalSize + length (snd kv)) n b = n + sum_list (map (\<lambda>kv. length (snd kv)) b)"
  by (induction b arbitrary: n) simp_all

lemma bucketSize_sum: "bucketSize b = sum_list (map (\<lambda>kv. length (snd kv)) b)"
  by (simp add: bucketSize_def bucketSize_foldl)

lemma bucketSize_update_le: "bucketSize (AList.update k v b) \<le> bucketSize b + length v"
  by (induction b) (auto simp: bucketSize_sum)

lemma packStep_snoc:
  "packStep m rf (xs @ [x], length xs) f =
     (if bucketSize x + length (lookup rf f) > m
      then (xs @ [x, [(f, lookup rf f)]], Suc (length xs))
      else (xs @ [AList.update f (lookup rf f) x], length xs))"
  by (simp add: packStep_def nth_append list_update_append)

lemma packLoop_shape:
  "\<exists>ys y. foldl (packStep m rf) (xs @ [x], length xs) fs = (ys @ [y], length ys) \<and> take (length xs) ys = xs"
proof (induction fs arbitrary: xs x)
  case Nil
  then show ?case by simp
next
  case (Cons f fs)
  show ?case
  proof (cases "bucketSize x + length (lookup rf f) > m")
    case True
    then have s: "packStep m rf (xs @ [x], length xs) f = ((xs @ [x]) @ [[(f, lookup rf f)]], length (xs @ [x]))"
      by (simp add: packStep_snoc)
    from Cons.IH [of "xs @ [x]" "[(f, lookup rf f)]"] obtain ys y where
      r: "foldl (packStep m rf) ((xs @ [x]) @ [[(f, lookup rf f)]], length (xs @ [x])) fs = (ys @ [y], length ys)"
      and t: "take (length (xs @ [x])) ys = xs @ [x]"
      by blast
    from t have "take (length xs) (take (length (xs @ [x])) ys) = xs" by simp
    then have "take (length xs) ys = xs" by (simp add: min_def)
    with r s show ?thesis by (simp del: append_assoc)
  next
    case False
    then have s: "packStep m rf (xs @ [x], length xs) f = (xs @ [AList.update f (lookup rf f) x], length xs)"
      by (simp add: packStep_snoc)
    from Cons.IH [of xs "AList.update f (lookup rf f) x"] s show ?thesis by simp
  qed
qed

lemma packLoop_concat:
  assumes "distinct fs" and "set fs \<inter> fst ` set (concat (xs @ [x])) = {}"
  shows "concat (fst (foldl (packStep m rf) (xs @ [x], length xs) fs))
           = concat (xs @ [x]) @ map (\<lambda>k. (k, lookup rf k)) fs"
  using assms
proof (induction fs arbitrary: xs x)
  case Nil
  then show ?case by simp
next
  case (Cons f fs)
  from Cons.prems have fx: "f \<notin> fst ` set x" by auto
  show ?case
  proof (cases "bucketSize x + length (lookup rf f) > m")
    case True
    then have s: "packStep m rf (xs @ [x], length xs) f = ((xs @ [x]) @ [[(f, lookup rf f)]], length (xs @ [x]))"
      by (simp add: packStep_snoc)
    have "concat (fst (foldl (packStep m rf) ((xs @ [x]) @ [[(f, lookup rf f)]], length (xs @ [x])) fs))
           = concat ((xs @ [x]) @ [[(f, lookup rf f)]]) @ map (\<lambda>k. (k, lookup rf k)) fs"
      using Cons.prems by (intro Cons.IH) auto
    with s show ?thesis by (simp del: append_assoc)
  next
    case False
    then have s: "packStep m rf (xs @ [x], length xs) f = (xs @ [AList.update f (lookup rf f) x], length xs)"
      by (simp add: packStep_snoc)
    have "concat (fst (foldl (packStep m rf) (xs @ [AList.update f (lookup rf f) x], length xs) fs))
           = concat (xs @ [AList.update f (lookup rf f) x]) @ map (\<lambda>k. (k, lookup rf k)) fs"
      using Cons.prems fx by (intro Cons.IH) (auto simp: update_fresh)
    with s fx show ?thesis by (simp add: update_fresh)
  qed
qed

lemma packLoop_size:
  assumes "\<forall>b \<in> set (xs @ [x]). bucketSize b \<le> m" and "\<forall>f \<in> set fs. length (lookup rf f) \<le> m"
  shows "\<forall>b \<in> set (fst (foldl (packStep m rf) (xs @ [x], length xs) fs)). bucketSize b \<le> m"
  using assms
proof (induction fs arbitrary: xs x)
  case Nil
  then show ?case by simp
next
  case (Cons f fs)
  show ?case
  proof (cases "bucketSize x + length (lookup rf f) > m")
    case True
    then have s: "packStep m rf (xs @ [x], length xs) f = ((xs @ [x]) @ [[(f, lookup rf f)]], length (xs @ [x]))"
      by (simp add: packStep_snoc)
    have "\<forall>b \<in> set (fst (foldl (packStep m rf) ((xs @ [x]) @ [[(f, lookup rf f)]], length (xs @ [x])) fs)). bucketSize b \<le> m"
      using Cons.prems by (intro Cons.IH) (auto simp: bucketSize_sum)
    with s show ?thesis by (simp del: append_assoc)
  next
    case False
    then have s: "packStep m rf (xs @ [x], length xs) f = (xs @ [AList.update f (lookup rf f) x], length xs)"
      by (simp add: packStep_snoc)
    from False have "bucketSize (AList.update f (lookup rf f) x) \<le> m"
      using bucketSize_update_le [of f "lookup rf f" x] by simp
    then have "\<forall>b \<in> set (fst (foldl (packStep m rf) (xs @ [AList.update f (lookup rf f) x], length xs) fs)). bucketSize b \<le> m"
      using Cons.prems by (intro Cons.IH) auto
    with s show ?thesis by simp
  qed
qed

lemma lookup_distinct: "distinct (map fst rf) \<Longrightarrow> kv \<in> set rf \<Longrightarrow> lookup rf (fst kv) = snd kv"
  by (cases kv) (simp add: lookup_def)

lemma packBuckets_concat:
  assumes "wf_map rf"
  shows "concat (packBuckets m rf) = map (\<lambda>k. (k, lookup rf k)) (sort (map fst rf))"
proof -
  from assms have "distinct (sort (map fst rf))" by (simp add: wf_map_def)
  then have "concat (fst (foldl (packStep m rf) ([] @ [[]], length ([] :: go_map list)) (sort (map fst rf))))
      = concat ([] @ [[]]) @ map (\<lambda>k. (k, lookup rf k)) (sort (map fst rf))"
    by (intro packLoop_concat) simp_all
  then show ?thesis by (simp add: packBuckets_def)
qed

lemma packBuckets_mset:
  assumes "wf_map rf"
  shows "mset (concat (packBuckets m rf)) = mset rf"
proof -
  have "mset (map (\<lambda>k. (k, lookup rf k)) (sort (map fst rf))) = mset (map (\<lambda>k. (k, lookup rf k)) (map fst rf))"
    by (simp del: map_map)
  also have "map (\<lambda>k. (k, lookup rf k)) (map fst rf) = map (\<lambda>kv. kv) rf"
    unfolding map_map using assms
    by (intro map_cong) (auto simp: wf_map_def lookup_distinct [of rf] comp_def)
  finally show ?thesis using assms by (simp add: packBuckets_concat)
qed

lemma packBuckets_keys:
  assumes "wf_map rf"
  shows "concat (map (map fst) (packBuckets m rf)) = sort (map fst rf)"
proof -
  have "concat (map (map fst) (packBuckets m rf)) = map fst (concat (packBuckets m rf))"
    by (simp add: map_concat)
  then show ?thesis using assms by (simp add: packBuckets_concat comp_def)
qed

lemma concat_index_unique:
  "distinct (concat xss) \<Longrightarrow> i < length xss \<Longrightarrow> j < length xss \<Longrightarrow> k \<in> set (xss ! i) \<Longrightarrow> k \<in> set (xss ! j) \<Longrightarrow> i = j"
proof (induction xss arbitrary: i j)
  case Nil
  then show ?case by simp
next
  case (Cons xs xss)
  show ?case
  proof (cases i)
    case 0
    note i0 = 0
    show ?thesis
    proof (cases j)
      case 0
      with i0 show ?thesis by simp
    next
      case (Suc j')
      with Cons.prems i0 have "k \<in> set xs" "k \<in> set (concat xss)" by auto
      with Cons.prems(1) show ?thesis by auto
    qed
  next
    case (Suc i')
    note iS = Suc
    show ?thesis
    proof (cases j)
      case 0
      with Cons.prems iS have "k \<in> set xs" "k \<in> set (concat xss)" by auto
      with Cons.prems(1) show ?thesis by auto
    next
      case (Suc j')
      with Cons.prems iS have "i' = j'" by (intro Cons.IH) auto
      with iS Suc show ?thesis by simp
    qed
  qed
qed

lemma packBuckets_unique:
  assumes "wf_map rf" and "k \<in> fst ` set rf"
  shows "\<exists>!i. i < length (packBuckets m rf) \<and> k \<in> fst ` set (packBuckets m rf ! i)"
proof -
  let ?kss = "map (map fst) (packBuckets m rf)"
  from assms have c: "concat ?kss = sort (map fst rf)" by (simp add: packBuckets_keys)
  with assms have d: "distinct (concat ?kss)" by (simp add: wf_map_def)
  from assms c have "k \<in> set (concat ?kss)" by simp
  then obtain ks where "ks \<in> set ?kss" "k \<in> set ks" unfolding set_concat by blast
  then obtain i where "i < length ?kss" "k \<in> set (?kss ! i)"
    by (metis in_set_conv_nth)
  then have i: "i < length (packBuckets m rf)" "k \<in> fst ` set (packBuckets m rf ! i)"
    by simp_all
  moreover have "j = i" if "j < length (packBuckets m rf)" "k \<in> fst ` set (packBuckets m rf ! j)" for j
    using concat_index_unique [OF d, of j i k] that i by simp
  ultimately show ?thesis by blast
qed

lemma packBuckets_size:
  assumes "\<forall>kv \<in> set rf. length (snd kv) \<le> m"
  shows "\<forall>b \<in> set (packBuckets m rf). bucketSize b \<le> m"
proof -
  have "length (lookup rf f) \<le> m" for f
  proof (cases "map_of rf f")
    case None
    then show ?thesis by (simp add: lookup_def)
  next
    case (Some v)
    then have "(f, v) \<in> set rf" by (rule map_of_SomeD)
    with assms Some show ?thesis by (auto simp: lookup_def)
  qed
  then have "\<forall>b \<in> set (fst (foldl (packStep m rf) ([] @ [[]], length ([] :: go_map list)) (sort (map fst rf)))). bucketSize b \<le> m"
    by (intro packLoop_size) (simp_all add: bucketSize_def)
  then show ?thesis by (simp add: packBuckets_def)
qed

lemma packBuckets_order:
  assumes "wf_map rf" and "mset rf' = mset rf"
  shows "packBuckets m rf' = packBuckets m rf"
proof -
  from assms(2) have s: "set rf' = set rf" by (rule mset_eq_setD)
  from assms(2) have "mset (map fst rf') = mset (map fst rf)" by (metis mset_map)
  then have k: "sort (map fst rf') = sort (map fst rf)"
    by (metis properties_for_sort sorted_sort mset_sort)
  from assms have d: "distinct (map fst rf')"
    by (metis wf_map_def mset_eq_imp_distinct_iff mset_map)
  from assms d s have "map_of rf' = map_of rf" by (simp add: wf_map_def map_of_inject_set)
  then have l: "lookup rf' = lookup rf" by (auto simp: lookup_def fun_eq_iff)
  have "packStep m rf' = packStep m rf" by (auto simp: packStep_def l fun_eq_iff)
  with k show ?thesis by (simp add: packBuckets_def)
qed

lemma packBuckets_nonempty: "packBuckets m rf \<noteq> []"
  using packLoop_shape [of m rf "[]" "[]" "sort (map fst rf)"] by (auto simp: packBuckets_def)

lemma makeRulesConfigMaps_Data: "map cm_Data (makeRulesConfigMaps m fin cr rf) = packBuckets m rf"
proof -
  have "map cm_Data (makeRulesConfigMaps m fin cr rf) = map snd (enumerate 0 (packBuckets m rf))"
    unfolding makeRulesConfigMaps_def map_map
    by (intro map_cong) (auto simp: makeRulesConfigMap_def Let_def)
  then show ?thesis by simp
qed

lemma makeRulesConfigMaps_length: "length (makeRulesConfigMaps m fin cr rf) = length (packBuckets m rf)"
  by (simp add: makeRulesConfigMaps_def)

lemma makeRulesConfigMaps_nth_Data:
  "i < length (packBuckets m rf) \<Longrightarrow> cm_Data (makeRulesConfigMaps m fin cr rf ! i) = packBuckets m rf ! i"
  using makeRulesConfigMaps_Data [of m fin cr rf]
  by (metis makeRulesConfigMaps_length nth_map)

lemma packBuckets_example:
  assumes "length va = 6" "length vb = 2" "length vc = 5"
  shows "packBuckets 8 [(''a'', va), (''b'', vb), (''c'', vc)] = [[(''a'', va), (''b'', vb)], [(''c'', vc)]]"
  using assms by (simp add: packBuckets_def packStep_def bucketSize_def lookup_def)

lemma packBuckets_oversized:
  "packBuckets 8 [(''a'', ''0123456789'')] = [[], [(''a'', ''0123456789'')]]"
  by (simp add: packBuckets_def packStep_def bucketSize_def lookup_def)

text \<open>
  C1: for every map of rule files (an association list with distinct keys), the entries of
  all buckets together are exactly the entries of the input, every file name with its
  content, and every file name of the input is in exactly one of the ConfigMaps.
\<close>

theorem makeRulesConfigMaps_lossless:
  assumes "wf_map ruleFiles"
  shows "mset (concat (map cm_Data (makeRulesConfigMaps maxSize fin cr ruleFiles))) = mset ruleFiles
       \<and> map_of (concat (map cm_Data (makeRulesConfigMaps maxSize fin cr ruleFiles))) = map_of ruleFiles
       \<and> (\<forall>k \<in> fst ` set ruleFiles.
            \<exists>!i. i < length (makeRulesConfigMaps maxSize fin cr ruleFiles)
                 \<and> k \<in> fst ` set (cm_Data (makeRulesConfigMaps maxSize fin cr ruleFiles ! i)))"
proof (intro conjI ballI)
  let ?cms = "makeRulesConfigMaps maxSize fin cr ruleFiles"
  have data: "map cm_Data ?cms = packBuckets maxSize ruleFiles"
    by (rule makeRulesConfigMaps_Data)
  show m: "mset (concat (map cm_Data ?cms)) = mset ruleFiles"
    using assms by (simp add: data packBuckets_mset)
  have "map fst (concat (map cm_Data ?cms)) = sort (map fst ruleFiles)"
    using assms by (simp add: data packBuckets_concat comp_def)
  with assms have "distinct (map fst (concat (map cm_Data ?cms)))"
    by (simp add: wf_map_def)
  moreover from m have "set (concat (map cm_Data ?cms)) = set ruleFiles"
    by (rule mset_eq_setD)
  ultimately show "map_of (concat (map cm_Data ?cms)) = map_of ruleFiles"
    using assms by (simp add: wf_map_def map_of_inject_set)
  fix k assume k: "k \<in> fst ` set ruleFiles"
  from packBuckets_unique [OF assms k, of maxSize]
  show "\<exists>!i. i < length ?cms \<and> k \<in> fst ` set (cm_Data (?cms ! i))"
    by (simp add: makeRulesConfigMaps_length makeRulesConfigMaps_nth_Data cong: conj_cong)
qed

theorem makeRulesConfigMaps_lossless_witness:
  "wf_map [(''b'', ''22''), (''a'', ''1'')]
   \<and> mset (concat (map cm_Data (makeRulesConfigMaps 2 ''f'' exampleVMAlert [(''b'', ''22''), (''a'', ''1'')])))
       = mset [(''b'', ''22''), (''a'', ''1'')]
   \<and> (\<exists>!i. i < length (makeRulesConfigMaps 2 ''f'' exampleVMAlert [(''b'', ''22''), (''a'', ''1'')])
          \<and> ''a'' \<in> fst ` set (cm_Data (makeRulesConfigMaps 2 ''f'' exampleVMAlert
                                         [(''b'', ''22''), (''a'', ''1'')] ! i)))"
proof -
  have w: "wf_map [(''b'', ''22''), (''a'', ''1'')]" by (simp add: wf_map_def)
  have k: "''a'' \<in> fst ` set [(''b'', ''22''), (''a'', ''1'')]" by simp
  from makeRulesConfigMaps_lossless [OF w, of 2 "''f''" exampleVMAlert] w k
  show ?thesis by blast
qed

text \<open>
  C2, as amended: when no single rule file is longer than the cap, every bucket that
  \<open>makeRulesConfigMaps\<close> produces has a \<open>bucketSize\<close> of at most the cap.
\<close>

theorem makeRulesConfigMaps_bucket_size:
  assumes "\<forall>kv \<in> set ruleFiles. length (snd kv) \<le> maxSize"
  shows "\<forall>cm \<in> set (makeRulesConfigMaps maxSize fin cr ruleFiles). bucketSize (cm_Data cm) \<le> maxSize"
proof
  fix cm assume "cm \<in> set (makeRulesConfigMaps maxSize fin cr ruleFiles)"
  then have "cm_Data cm \<in> set (map cm_Data (makeRulesConfigMaps maxSize fin cr ruleFiles))"
    by simp
  then have "cm_Data cm \<in> set (packBuckets maxSize ruleFiles)"
    by (simp only: makeRulesConfigMaps_Data)
  with packBuckets_size [OF assms] show "bucketSize (cm_Data cm) \<le> maxSize" by blast
qed

theorem makeRulesConfigMaps_bucket_size_witness:
  "list_all (\<lambda>kv. length (snd kv) \<le> 8) [(''a'', ''aaaaaa''), (''b'', ''bb''), (''c'', ''ccccc'')]
   \<and> list_all (\<lambda>cm. bucketSize (cm_Data cm) \<le> 8)
         (makeRulesConfigMaps 8 ''f'' exampleVMAlert
            [(''a'', ''aaaaaa''), (''b'', ''bb''), (''c'', ''ccccc'')])"
proof -
  have h: "\<forall>kv \<in> set [(''a'', ''aaaaaa''), (''b'', ''bb''), (''c'', ''ccccc'')]. length (snd kv) \<le> 8"
    by simp
  from makeRulesConfigMaps_bucket_size [OF h, of "''f''" exampleVMAlert] h
  show ?thesis unfolding list_all_iff by blast
qed

text \<open>
  C2 as stated fails: with the cap 8, a single file of 10 bytes is put into a bucket of its
  own (the second one; the first stays empty), and that bucket has size 10.
\<close>

theorem makeRulesConfigMaps_oversized_counterexample:
  "\<not> bucketSize (cm_Data (makeRulesConfigMaps 8 ''f'' exampleVMAlert [(''a'', ''0123456789'')] ! 1)) \<le> 8"
proof -
  have "cm_Data (makeRulesConfigMaps 8 ''f'' exampleVMAlert [(''a'', ''0123456789'')] ! 1)
          = packBuckets 8 [(''a'', ''0123456789'')] ! 1"
    by (rule makeRulesConfigMaps_nth_Data) (simp add: packBuckets_oversized)
  then show ?thesis by (simp add: packBuckets_oversized bucketSize_def)
qed

lemma packLoop_nextFit:
  assumes "distinct fs" and "set fs \<inter> fst ` set x = {}"
  shows "fst (foldl (packStep m rf) (xs @ [x], length xs) fs)
           = xs @ nextFit m x (map (\<lambda>k. (k, lookup rf k)) fs)"
  using assms
proof (induction fs arbitrary: xs x)
  case Nil
  then show ?case by simp
next
  case (Cons f fs)
  from Cons.prems have fx: "f \<notin> fst ` set x" by auto
  show ?case
  proof (cases "bucketSize x + length (lookup rf f) > m")
    case True
    then have s: "packStep m rf (xs @ [x], length xs) f = ((xs @ [x]) @ [[(f, lookup rf f)]], length (xs @ [x]))"
      by (simp add: packStep_snoc)
    have "fst (foldl (packStep m rf) ((xs @ [x]) @ [[(f, lookup rf f)]], length (xs @ [x])) fs)
           = (xs @ [x]) @ nextFit m [(f, lookup rf f)] (map (\<lambda>k. (k, lookup rf k)) fs)"
      using Cons.prems by (intro Cons.IH) auto
    with s True show ?thesis by (simp del: append_assoc)
  next
    case False
    then have s: "packStep m rf (xs @ [x], length xs) f = (xs @ [AList.update f (lookup rf f) x], length xs)"
      by (simp add: packStep_snoc)
    have "fst (foldl (packStep m rf) (xs @ [x @ [(f, lookup rf f)]], length xs) fs)
           = xs @ nextFit m (x @ [(f, lookup rf f)]) (map (\<lambda>k. (k, lookup rf k)) fs)"
      using Cons.prems by (intro Cons.IH) auto
    with s False fx show ?thesis by (simp add: update_fresh)
  qed
qed

lemma packBuckets_nextFit:
  assumes "wf_map rf"
  shows "packBuckets m rf = nextFit m [] (map (\<lambda>k. (k, lookup rf k)) (sort (map fst rf)))"
proof -
  from assms have "distinct (sort (map fst rf))" by (simp add: wf_map_def)
  then have "fst (foldl (packStep m rf) ([] @ [[]], length ([] :: go_map list)) (sort (map fst rf)))
      = [] @ nextFit m [] (map (\<lambda>k. (k, lookup rf k)) (sort (map fst rf)))"
    by (intro packLoop_nextFit) simp_all
  then show ?thesis by (simp add: packBuckets_def)
qed

lemma nextFit_hd: "\<exists>rest bs. nextFit cap cur files = (cur @ rest) # bs"
proof (induction files arbitrary: cur)
  case Nil
  then show ?case by simp
next
  case (Cons entry files)
  show ?case
  proof (cases "bucketSize cur + length (snd entry) > cap")
    case True
    then show ?thesis by simp
  next
    case False
    from Cons.IH [of "cur @ [entry]"] obtain rest bs
      where "nextFit cap (cur @ [entry]) files = ((cur @ [entry]) @ rest) # bs" by blast
    with False show ?thesis by simp
  qed
qed

lemma nextFit_overflow:
  "Suc i < length (nextFit cap cur files) \<Longrightarrow>
     nextFit cap cur files ! Suc i \<noteq> []
     \<and> bucketSize (nextFit cap cur files ! i) + length (snd (hd (nextFit cap cur files ! Suc i))) > cap"
proof (induction files arbitrary: cur i)
  case Nil
  then show ?case by simp
next
  case (Cons entry files)
  show ?case
  proof (cases "bucketSize cur + length (snd entry) > cap")
    case True
    note ov = True
    obtain rest bs where h: "nextFit cap [entry] files = ([entry] @ rest) # bs"
      using nextFit_hd [of cap "[entry]" files] by blast
    show ?thesis
    proof (cases i)
      case 0
      with ov h show ?thesis by simp
    next
      case (Suc j)
      with Cons.prems ov have "Suc j < length (nextFit cap [entry] files)" by simp
      from Cons.IH [OF this] ov Suc show ?thesis by simp
    qed
  next
    case False
    with Cons.prems have "Suc i < length (nextFit cap (cur @ [entry]) files)" by simp
    from Cons.IH [OF this] False show ?thesis by simp
  qed
qed

lemma nextFit_fits:
  assumes "i < length (nextFit cap cur files)"
    and "nextFit cap cur files ! i = pre @ entry # post"
    and "if i = 0 then length cur \<le> length pre else pre \<noteq> []"
  shows "bucketSize pre + length (snd entry) \<le> cap"
  using assms
proof (induction files arbitrary: cur i)
  case Nil
  then have "cur = pre @ entry # post" "length cur \<le> length pre" by (simp_all split: if_splits)
  then show ?case by simp
next
  case (Cons f files)
  show ?case
  proof (cases "bucketSize cur + length (snd f) > cap")
    case True
    note ov = True
    show ?thesis
    proof (cases i)
      case 0
      with Cons.prems ov have "cur = pre @ entry # post" "length cur \<le> length pre" by simp_all
      then show ?thesis by simp
    next
      case (Suc j)
      with Cons.prems ov have 1: "j < length (nextFit cap [f] files)"
        and 2: "nextFit cap [f] files ! j = pre @ entry # post" and 3: "pre \<noteq> []" by simp_all
      from 3 have "if j = 0 then length [f] \<le> length pre else pre \<noteq> []"
        by (cases pre) simp_all
      from Cons.IH [OF 1 2 this] show ?thesis .
    qed
  next
    case False
    note fit = False
    with Cons.prems have 1: "i < length (nextFit cap (cur @ [f]) files)"
      and 2: "nextFit cap (cur @ [f]) files ! i = pre @ entry # post" by simp_all
    show ?thesis
    proof (cases "i = 0 \<and> length pre = length cur")
      case True
      obtain rest bs where h: "nextFit cap (cur @ [f]) files = ((cur @ [f]) @ rest) # bs"
        using nextFit_hd [of cap "cur @ [f]" files] by blast
      with 2 True have "cur @ f # rest = pre @ entry # post" by simp
      with True have "pre = cur" "entry = f" by (simp_all add: append_eq_append_conv)
      with fit show ?thesis by simp
    next
      case False
      with Cons.prems(3) have "if i = 0 then length (cur @ [f]) \<le> length pre else pre \<noteq> []"
        by (auto split: if_splits)
      from Cons.IH [OF 1 2 this] show ?thesis .
    qed
  qed
qed

lemma packBuckets_closed_prefix:
  assumes "sort (map fst rf) = fs1 @ fs2"
  shows "take (length (fst (foldl (packStep m rf) ([[]], 0) fs1)) - 1) (packBuckets m rf)
           = butlast (fst (foldl (packStep m rf) ([[]], 0) fs1))"
proof -
  obtain ys y where 1: "foldl (packStep m rf) ([] @ [[]], length ([] :: go_map list)) fs1 = (ys @ [y], length ys)"
    using packLoop_shape [of m rf "[]" "[]" fs1] by blast
  obtain zs z where 2: "foldl (packStep m rf) (ys @ [y], length ys) fs2 = (zs @ [z], length zs)"
    and 3: "take (length ys) zs = ys"
    using packLoop_shape [of m rf ys y fs2] by blast
  from 1 have f1: "foldl (packStep m rf) ([[]], 0) fs1 = (ys @ [y], length ys)" by simp
  have "packBuckets m rf = fst (foldl (packStep m rf) (foldl (packStep m rf) ([[]], 0) fs1) fs2)"
    using assms by (simp add: packBuckets_def)
  with f1 2 have p: "packBuckets m rf = zs @ [z]" by simp
  from 3 have "length ys \<le> length zs"
    by (metis length_take min.cobounded1)
  with 3 have "take (length ys) (zs @ [z]) = ys" by simp
  with p f1 show ?thesis by simp
qed

text \<open>
  C3: the buckets, read in order, hold the file names in ascending order, whatever the order
  in which the map is visited, and they are the buckets of the specification's next-fit
  packer on the sorted files.  In the result, every bucket after the first was opened by its
  first file, which did not fit into the bucket before it (the size of that bucket plus the
  size of the file exceeds the cap), and every other file fitted into its bucket when it
  was added (the size of the files before it in the bucket plus its own size is at most the
  cap).  These buckets are, in their order, the data of the ConfigMaps that
  \<open>makeRulesConfigMaps\<close> returns, and they are the result of the loop over the sorted names; at every point of the loop, the
  buckets before the current one are already as they are in the result.  One step of the
  loop looks only at the current (last) bucket, opens a new one exactly when the size of
  the current bucket plus the size of the file exceeds the cap, and puts the file into the
  bucket that is then current.  With the cap 8 and files \<open>a\<close>, \<open>b\<close>, \<open>c\<close> of sizes 6, 2, 5
  the first bucket holds \<open>a\<close> and \<open>b\<close> (size 8) and the second holds \<open>c\<close>.
\<close>

theorem packBuckets_next_fit:
  "(wf_map ruleFiles \<longrightarrow>
      concat (map (map fst) (packBuckets maxSize ruleFiles)) = sort (map fst ruleFiles)
      \<and> (\<forall>ruleFiles'. mset ruleFiles' = mset ruleFiles
            \<longrightarrow> packBuckets maxSize ruleFiles' = packBuckets maxSize ruleFiles)
      \<and> packBuckets maxSize ruleFiles
           = nextFit maxSize [] (map (\<lambda>k. (k, lookup ruleFiles k)) (sort (map fst ruleFiles)))
      \<and> (\<forall>i. Suc i < length (packBuckets maxSize ruleFiles) \<longrightarrow>
            packBuckets maxSize ruleFiles ! Suc i \<noteq> []
            \<and> bucketSize (packBuckets maxSize ruleFiles ! i)
                + length (snd (hd (packBuckets maxSize ruleFiles ! Suc i))) > maxSize)
      \<and> (\<forall>i pre entry post.
            i < length (packBuckets maxSize ruleFiles)
            \<and> packBuckets maxSize ruleFiles ! i = pre @ entry # post \<and> (i = 0 \<or> pre \<noteq> [])
            \<longrightarrow> bucketSize pre + length (snd entry) \<le> maxSize))
   \<and> map cm_Data (makeRulesConfigMaps maxSize fin cr ruleFiles) = packBuckets maxSize ruleFiles
   \<and> packBuckets maxSize ruleFiles
        = fst (foldl (packStep maxSize ruleFiles) ([[]], 0) (sort (map fst ruleFiles)))
   \<and> (\<forall>fs1 fs2. sort (map fst ruleFiles) = fs1 @ fs2 \<longrightarrow>
         take (length (fst (foldl (packStep maxSize ruleFiles) ([[]], 0) fs1)) - 1)
              (packBuckets maxSize ruleFiles)
           = butlast (fst (foldl (packStep maxSize ruleFiles) ([[]], 0) fs1)))
   \<and> packStep maxSize ruleFiles (buckets @ [current], length buckets) filename =
       (if bucketSize current + length (lookup ruleFiles filename) > maxSize
        then (buckets @ [current, [(filename, lookup ruleFiles filename)]], Suc (length buckets))
        else (buckets @ [AList.update filename (lookup ruleFiles filename) current], length buckets))
   \<and> (\<exists>buckets' current'.
         foldl (packStep maxSize ruleFiles) (buckets @ [current], length buckets) fileNames
           = (buckets' @ [current'], length buckets')
         \<and> take (length buckets) buckets' = buckets)
   \<and> (length va = 6 \<and> length vb = 2 \<and> length vc = 5 \<longrightarrow>
         map cm_Data (makeRulesConfigMaps 8 fin cr [(''a'', va), (''b'', vb), (''c'', vc)])
           = [[(''a'', va), (''b'', vb)], [(''c'', vc)]]
         \<and> bucketSize [(''a'', va), (''b'', vb)] = 8)"
proof (intro conjI impI allI)
  assume "wf_map ruleFiles"
  then show "concat (map (map fst) (packBuckets maxSize ruleFiles)) = sort (map fst ruleFiles)"
    by (rule packBuckets_keys)
next
  fix ruleFiles' assume "wf_map ruleFiles" "mset ruleFiles' = mset ruleFiles"
  then show "packBuckets maxSize ruleFiles' = packBuckets maxSize ruleFiles"
    by (rule packBuckets_order)
next
  assume "wf_map ruleFiles"
  then show "packBuckets maxSize ruleFiles
           = nextFit maxSize [] (map (\<lambda>k. (k, lookup ruleFiles k)) (sort (map fst ruleFiles)))"
    by (rule packBuckets_nextFit)
next
  fix i assume w: "wf_map ruleFiles" and i: "Suc i < length (packBuckets maxSize ruleFiles)"
  from i nextFit_overflow [of i maxSize "[]" "map (\<lambda>k. (k, lookup ruleFiles k)) (sort (map fst ruleFiles))"]
  show "packBuckets maxSize ruleFiles ! Suc i \<noteq> []"
    unfolding packBuckets_nextFit [OF w] by blast
  from i nextFit_overflow [of i maxSize "[]" "map (\<lambda>k. (k, lookup ruleFiles k)) (sort (map fst ruleFiles))"]
  show "bucketSize (packBuckets maxSize ruleFiles ! i)
                + length (snd (hd (packBuckets maxSize ruleFiles ! Suc i))) > maxSize"
    unfolding packBuckets_nextFit [OF w] by blast
next
  fix i pre entry post
  assume w: "wf_map ruleFiles"
    and h: "i < length (packBuckets maxSize ruleFiles)
            \<and> packBuckets maxSize ruleFiles ! i = pre @ entry # post \<and> (i = 0 \<or> pre \<noteq> [])"
  let ?fs = "map (\<lambda>k. (k, lookup ruleFiles k)) (sort (map fst ruleFiles))"
  from h have 1: "i < length (nextFit maxSize [] ?fs)" and 2: "nextFit maxSize [] ?fs ! i = pre @ entry # post"
    unfolding packBuckets_nextFit [OF w] by simp_all
  from h have 3: "if i = 0 then length ([] :: go_map) \<le> length pre else pre \<noteq> []" by auto
  from nextFit_fits [OF 1 2 3] show "bucketSize pre + length (snd entry) \<le> maxSize" .
next
  show "map cm_Data (makeRulesConfigMaps maxSize fin cr ruleFiles) = packBuckets maxSize ruleFiles"
    by (rule makeRulesConfigMaps_Data)
next
  show "packBuckets maxSize ruleFiles
        = fst (foldl (packStep maxSize ruleFiles) ([[]], 0) (sort (map fst ruleFiles)))"
    by (simp add: packBuckets_def)
next
  fix fs1 fs2 assume "sort (map fst ruleFiles) = fs1 @ fs2"
  then show "take (length (fst (foldl (packStep maxSize ruleFiles) ([[]], 0) fs1)) - 1)
              (packBuckets maxSize ruleFiles)
           = butlast (fst (foldl (packStep maxSize ruleFiles) ([[]], 0) fs1))"
    by (rule packBuckets_closed_prefix)
next
  show "packStep maxSize ruleFiles (buckets @ [current], length buckets) filename =
       (if bucketSize current + length (lookup ruleFiles filename) > maxSize
        then (buckets @ [current, [(filename, lookup ruleFiles filename)]], Suc (length buckets))
        else (buckets @ [AList.update filename (lookup ruleFiles filename) current], length buckets))"
    by (rule packStep_snoc)
next
  show "\<exists>buckets' current'.
         foldl (packStep maxSize ruleFiles) (buckets @ [current], length buckets) fileNames
           = (buckets' @ [current'], length buckets')
         \<and> take (length buckets) buckets' = buckets"
    by (rule packLoop_shape)
next
  assume "length va = 6 \<and> length vb = 2 \<and> length vc = 5"
  then show "map cm_Data (makeRulesConfigMaps 8 fin cr [(''a'', va), (''b'', vb), (''c'', vc)])
           = [[(''a'', va), (''b'', vb)], [(''c'', vc)]]"
    by (simp add: makeRulesConfigMaps_Data packBuckets_example)
next
  assume "length va = 6 \<and> length vb = 2 \<and> length vc = 5"
  then show "bucketSize [(''a'', va), (''b'', vb)] = 8"
    by (simp add: bucketSize_def)
qed

theorem packBuckets_next_fit_witness:
  "wf_map [(''c'', ''ccccc''), (''a'', ''aaaaaa''), (''b'', ''bb'')]
   \<and> concat (map (map fst) (packBuckets 8 [(''c'', ''ccccc''), (''a'', ''aaaaaa''), (''b'', ''bb'')]))
       = sort (map fst [(''c'', ''ccccc''), (''a'', ''aaaaaa''), (''b'', ''bb'')])
   \<and> packBuckets 8 [(''c'', ''ccccc''), (''a'', ''aaaaaa''), (''b'', ''bb'')]
       = nextFit 8 [] (map (\<lambda>k. (k, lookup [(''c'', ''ccccc''), (''a'', ''aaaaaa''), (''b'', ''bb'')] k))
                        (sort (map fst [(''c'', ''ccccc''), (''a'', ''aaaaaa''), (''b'', ''bb'')])))
   \<and> nextFit 8 [] [(''a'', ''aaaaaa''), (''b'', ''bb''), (''c'', ''ccccc'')]
       = [[(''a'', ''aaaaaa''), (''b'', ''bb'')], [(''c'', ''ccccc'')]]
   \<and> length ''aaaaaa'' = 6 \<and> length ''bb'' = 2 \<and> length ''ccccc'' = 5
   \<and> map cm_Data (makeRulesConfigMaps 8 ''f'' exampleVMAlert
        [(''a'', ''aaaaaa''), (''b'', ''bb''), (''c'', ''ccccc'')])
       = [[(''a'', ''aaaaaa''), (''b'', ''bb'')], [(''c'', ''ccccc'')]]"
proof -
  have w: "wf_map [(''c'', ''ccccc''), (''a'', ''aaaaaa''), (''b'', ''bb'')]" by (simp add: wf_map_def)
  have l: "length ''aaaaaa'' = 6 \<and> length ''bb'' = 2 \<and> length ''ccccc'' = 5" by simp
  have n: "nextFit 8 [] [(''a'', ''aaaaaa''), (''b'', ''bb''), (''c'', ''ccccc'')]
       = [[(''a'', ''aaaaaa''), (''b'', ''bb'')], [(''c'', ''ccccc'')]]"
    by (simp add: bucketSize_def)
  from packBuckets_next_fit [where ruleFiles = "[(''c'', ''ccccc''), (''a'', ''aaaaaa''), (''b'', ''bb'')]"
      and maxSize = 8 and buckets = "[]" and current = "[]" and filename = "[]" and fileNames = "[]"
      and va = "''aaaaaa''" and vb = "''bb''" and vc = "''ccccc''" and fin = "''f''" and cr = exampleVMAlert]
    w l n
  show ?thesis by blast
qed

section \<open>Properties of rendering\<close>

lemma map_of_enforceNsLabel:
  "map_of (rule_Labels (enforceNsLabel l ns r)) = (map_of (rule_Labels r))(l \<mapsto> ns)"
  by (simp add: enforceNsLabel_def Let_def update_conv')

lemma enforceNsLabel_rest: "(enforceNsLabel l ns r)\<lparr>rule_Labels := rule_Labels r\<rparr> = r"
  by (simp add: enforceNsLabel_def Let_def)

lemma generateContent_fst:
  "l \<noteq> [] \<Longrightarrow> fst (generateContent y p l ns) =
     p\<lparr>spec_Groups := map (\<lambda>group. group\<lparr>grp_Rules := map (enforceNsLabel l ns) (grp_Rules group)\<rparr>) (spec_Groups p)\<rparr>"
  by (simp add: generateContent_def Let_def split: sum.splits)

lemma generateContent_snd:
  "snd (generateContent y p l ns) =
     (case y (fst (generateContent y p l ns)) of
        Inl err \<Rightarrow> Inl (ErrWrap ''cannot unmarshal context for cm rule generation: '' (ErrOther err))
      | Inr content \<Rightarrow> Inr content)"
  by (simp add: generateContent_def Let_def split: sum.splits)

text \<open>
  C6: with a non-empty enforced namespace label, what \<open>generateContent\<close> hands to the
  serialiser has, on every rule of every group, that label set to the namespace of the rule
  source, whatever the rule carried for it before; the groups, their names and all other
  fields and labels of the rules are as they were.  With the label \<open>ns\<close>, the namespace
  \<open>team-a\<close> and a rule that carries \<open>ns = other\<close>, the rule is rendered with \<open>ns = team-a\<close>.
\<close>

theorem generateContent_enforces_namespace:
  assumes "enforcedNsLabel \<noteq> []"
  shows "snd (generateContent yamlMarshal promRule enforcedNsLabel ns) =
           (case yamlMarshal (fst (generateContent yamlMarshal promRule enforcedNsLabel ns)) of
              Inl err \<Rightarrow> Inl (ErrWrap ''cannot unmarshal context for cm rule generation: '' (ErrOther err))
            | Inr content \<Rightarrow> Inr content)
       \<and> (\<forall>g \<in> set (spec_Groups (fst (generateContent yamlMarshal promRule enforcedNsLabel ns))).
            \<forall>r \<in> set (grp_Rules g). map_of (rule_Labels r) enforcedNsLabel = Some ns)
       \<and> list_all2
            (\<lambda>g g'. grp_Name g' = grp_Name g
               \<and> list_all2
                   (\<lambda>r r'. r'\<lparr>rule_Labels := rule_Labels r\<rparr> = r
                      \<and> map_of (rule_Labels r') = (map_of (rule_Labels r))(enforcedNsLabel \<mapsto> ns))
                   (grp_Rules g) (grp_Rules g'))
            (spec_Groups promRule)
            (spec_Groups (fst (generateContent yamlMarshal promRule enforcedNsLabel ns)))
       \<and> rule_Labels (enforceNsLabel ''ns'' ''team-a'' (exampleRule ''up'' [(''ns'', ''other'')]))
            = [(''ns'', ''team-a'')]
       \<and> snd (generateContent memMarshal exampleEnforced ''ns'' ''team-a'') = Inr ''g:up{ns=team-a,};''"
proof (intro conjI)
  let ?spec = "fst (generateContent yamlMarshal promRule enforcedNsLabel ns)"
  show "snd (generateContent yamlMarshal promRule enforcedNsLabel ns) =
           (case yamlMarshal ?spec of
              Inl err \<Rightarrow> Inl (ErrWrap ''cannot unmarshal context for cm rule generation: '' (ErrOther err))
            | Inr content \<Rightarrow> Inr content)"
    by (rule generateContent_snd)
  show "\<forall>g \<in> set (spec_Groups ?spec). \<forall>r \<in> set (grp_Rules g). map_of (rule_Labels r) enforcedNsLabel = Some ns"
    using assms by (auto simp: generateContent_fst map_of_enforceNsLabel)
  show "list_all2
            (\<lambda>g g'. grp_Name g' = grp_Name g
               \<and> list_all2
                   (\<lambda>r r'. r'\<lparr>rule_Labels := rule_Labels r\<rparr> = r
                      \<and> map_of (rule_Labels r') = (map_of (rule_Labels r))(enforcedNsLabel \<mapsto> ns))
                   (grp_Rules g) (grp_Rules g'))
            (spec_Groups promRule) (spec_Groups ?spec)"
    using assms
    by (simp add: generateContent_fst list_all2_map2 list_all2_same map_of_enforceNsLabel enforceNsLabel_rest)
  show "rule_Labels (enforceNsLabel ''ns'' ''team-a'' (exampleRule ''up'' [(''ns'', ''other'')]))
            = [(''ns'', ''team-a'')]"
    by (simp add: enforceNsLabel_def exampleRule_def)
  show "snd (generateContent memMarshal exampleEnforced ''ns'' ''team-a'') = Inr ''g:up{ns=team-a,};''"
    by (simp add: generateContent_def exampleEnforced_def memMarshal_def enforceNsLabel_def exampleRule_def)
qed

theorem generateContent_enforces_namespace_witness:
  "''ns'' \<noteq> []
   \<and> list_all (\<lambda>g. list_all (\<lambda>r. map_of (rule_Labels r) ''ns'' = Some ''team-a'') (grp_Rules g))
         (spec_Groups (fst (generateContent memMarshal exampleEnforced ''ns'' ''team-a'')))
   \<and> snd (generateContent memMarshal exampleEnforced ''ns'' ''team-a'') = Inr ''g:up{ns=team-a,};''"
proof -
  have h: "''ns'' \<noteq> []" by simp
  from generateContent_enforces_namespace [OF h, of memMarshal exampleEnforced "''team-a''"] h
  show ?thesis unfolding list_all_iff by blast
qed

section \<open>Properties of the selection\<close>

lemma defAlert_length: "length defAlert = 437"
  by (simp add: defAlert_def)

lemma Itoa_0: "Itoa 0 = ''0''"
  by code_simp

lemma packBuckets_single:
  "length v \<le> m \<Longrightarrow> packBuckets m [(k, v)] = [[(k, v)]]"
  by (simp add: packBuckets_def packStep_def bucketSize_def lookup_def)

lemma makeRulesConfigMaps_single:
  assumes "length v \<le> m"
  shows "makeRulesConfigMaps m fin cr [(k, v)] =
           [(makeRulesConfigMap fin cr [(k, v)])\<lparr>cm_Name := ''vm-'' @ cr_Name cr @ ''-rulefiles-0''\<rparr>]"
  using assms
  by (simp add: makeRulesConfigMaps_def packBuckets_single Let_def
        makeRulesConfigMap_def ruleConfigMapName_def Itoa_0 del: Itoa.simps)

text \<open>
  C7: when the selected rules yield no file, the file map that \<open>selectRulesUpdateStatus\<close>
  returns is exactly the one file \<open>default-vmalert.yaml\<close> with the content \<open>defAlert\<close>, and
  (the cap being at least the length of \<open>defAlert\<close>) \<open>makeRulesConfigMaps\<close> makes of it exactly
  one ConfigMap, which holds that file.  The counter of bad objects grows by the number of
  bad rules, and the status is written for the kept and for the bad rules of the loop: the
  injected file is no part of either.
\<close>

theorem selectRules_default_injection:
  assumes visit: "env_VisitObjects e cr = Inr ruleLists"
    and sel: "vmRules = (if cr_NeedDedupRules cr then fst (deduplicateRules (selectedRules ruleLists))
                         else selectedRules ruleLists)"
    and render: "renderRules e cr vmRules = ([], kept, badRules)"
    and st1: "env_StatusForChildObjects e (cr_Name cr @ ''.'' @ cr_Namespace cr @ ''.vmalert'') kept = None"
    and st2: "env_StatusForChildObjects e (cr_Name cr @ ''.'' @ cr_Namespace cr @ ''.vmalert'') badRules = None"
    and cap: "length defAlert \<le> env_MaxConfigMapDataSize e"
  shows "fst (selectRulesUpdateStatus e cr w) = Inr [(''default-vmalert.yaml'', defAlert)]
       \<and> map cm_Data (makeRulesConfigMaps (env_MaxConfigMapDataSize e) (env_FinalizerName e) cr
                        [(''default-vmalert.yaml'', defAlert)])
           = [[(''default-vmalert.yaml'', defAlert)]]
       \<and> map cm_Name (makeRulesConfigMaps (env_MaxConfigMapDataSize e) (env_FinalizerName e) cr
                        [(''default-vmalert.yaml'', defAlert)])
           = [''vm-'' @ cr_Name cr @ ''-rulefiles-0'']
       \<and> w_badConfigsTotal (snd (selectRulesUpdateStatus e cr w)) = w_badConfigsTotal w + length badRules
       \<and> w_statusWrites (snd (selectRulesUpdateStatus e cr w))
           = w_statusWrites w @ [(cr_Name cr @ ''.'' @ cr_Namespace cr @ ''.vmalert'', kept),
                                 (cr_Name cr @ ''.'' @ cr_Namespace cr @ ''.vmalert'', badRules)]"
proof -
  let ?parent = "cr_Name cr @ ''.'' @ cr_Namespace cr @ ''.vmalert''"
  have r: "renderRules e cr (if cr_NeedDedupRules cr then fst (deduplicateRules (selectedRules ruleLists))
                         else selectedRules ruleLists) = ([], kept, badRules)"
    using render sel by simp
  have "selectRulesUpdateStatus e cr w =
      (Inr (injectDefault []),
       (if length (selectedRules ruleLists) > 0
        then logInfo (LogSelected (length (selectedRules ruleLists)) (length badRules)
               (map (\<lambda>item. vmrule_Namespace item @ ''/'' @ vmrule_Name item) (selectedRules ruleLists)))
        else id)
         (statusWrite ?parent badRules (statusWrite ?parent kept
            ((if cr_NeedDedupRules cr
              then w\<lparr>w_logs := w_logs w @ [LogDeduplicating] @ snd (deduplicateRules (selectedRules ruleLists))\<rparr>
              else w)\<lparr>w_badConfigsTotal := w_badConfigsTotal w + length badRules\<rparr>))))"
    using visit r st1 st2
    by (cases "cr_NeedDedupRules cr")
       (simp_all add: selectRulesUpdateStatus_def Let_def split_beta)
  then have "fst (selectRulesUpdateStatus e cr w) = Inr [(''default-vmalert.yaml'', defAlert)]"
    and "w_badConfigsTotal (snd (selectRulesUpdateStatus e cr w)) = w_badConfigsTotal w + length badRules"
    and "w_statusWrites (snd (selectRulesUpdateStatus e cr w))
           = w_statusWrites w @ [(?parent, kept), (?parent, badRules)]"
    by (simp_all add: injectDefault_def statusWrite_def logInfo_def)
  moreover note makeRulesConfigMaps_single [OF cap, of "env_FinalizerName e" cr "''default-vmalert.yaml''"]
  ultimately show ?thesis by (simp add: makeRulesConfigMap_def)
qed

theorem selectRules_default_injection_witness:
  "fst (selectRulesUpdateStatus (rejectAll (memEnv 524288 [exampleVMRule ''ns'' ''r1'' []]))
          exampleVMAlert emptyWorld)
     = Inr [(''default-vmalert.yaml'', defAlert)]
   \<and> w_badConfigsTotal (snd (selectRulesUpdateStatus
          (rejectAll (memEnv 524288 [exampleVMRule ''ns'' ''r1'' []])) exampleVMAlert emptyWorld)) = 1
   \<and> map cm_Name (makeRulesConfigMaps 524288 ''apps.victoriametrics.com/finalizer'' exampleVMAlert
                        [(''default-vmalert.yaml'', defAlert)])
       = [''vm-x-rulefiles-0'']"
proof -
  let ?e = "rejectAll (memEnv 524288 [exampleVMRule ''ns'' ''r1'' []])"
  let ?bad = "[(exampleVMRule ''ns'' ''r1'' [])\<lparr>vmrule_CurrentSyncError := ''invalid''\<rparr>]"
  have visit: "env_VisitObjects ?e exampleVMAlert = Inr [[exampleVMRule ''ns'' ''r1'' []]]"
    by (simp add: rejectAll_def memEnv_def)
  have sel: "[exampleVMRule ''ns'' ''r1'' []] =
      (if cr_NeedDedupRules exampleVMAlert
       then fst (deduplicateRules (selectedRules [[exampleVMRule ''ns'' ''r1'' []]]))
       else selectedRules [[exampleVMRule ''ns'' ''r1'' []]])"
    by (simp add: exampleVMAlert_def selectedRules_def exampleVMRule_def)
  have render: "renderRules ?e exampleVMAlert [exampleVMRule ''ns'' ''r1'' []] = ([], [], ?bad)"
    by (simp add: renderRules_def selectStep_def rejectAll_def memEnv_def)
  have st: "env_StatusForChildObjects ?e
              (cr_Name exampleVMAlert @ ''.'' @ cr_Namespace exampleVMAlert @ ''.vmalert'') objs = None" for objs
    by (simp add: rejectAll_def memEnv_def)
  have cap: "length defAlert \<le> env_MaxConfigMapDataSize ?e"
    by (simp add: rejectAll_def memEnv_def defAlert_length)
  have c: "env_MaxConfigMapDataSize ?e = 524288" "env_FinalizerName ?e = ''apps.victoriametrics.com/finalizer''"
    "cr_Name exampleVMAlert = ''x''" "w_badConfigsTotal emptyWorld = 0"
    by (simp_all add: rejectAll_def memEnv_def exampleVMAlert_def emptyWorld_def)
  from selectRules_default_injection [OF visit sel render st st cap, of emptyWorld]
  show ?thesis by (simp add: c)
qed

section \<open>Properties of the diff\<close>

lemma find_filter: "find P xs = (case filter P xs of [] \<Rightarrow> None | x # ys \<Rightarrow> Some x)"
  by (induction xs) simp_all

lemma deepEqualMap_iff: "deepEqualMap a b \<longleftrightarrow> map_of a = map_of b"
proof
  assume h: "deepEqualMap a b"
  show "map_of a = map_of b"
  proof
    fix k
    show "map_of a k = map_of b k"
    proof (cases "k \<in> set (map fst a) \<union> set (map fst b)")
      case True
      with h show ?thesis by (simp add: deepEqualMap_def)
    next
      case False
      then have "map_of a k = None" "map_of b k = None"
        by (simp_all add: map_of_eq_None_iff)
      then show ?thesis by simp
    qed
  qed
next
  assume "map_of a = map_of b"
  then show "deepEqualMap a b" by (simp add: deepEqualMap_def)
qed

lemma map_of_foldl_update:
  "map_of (foldl (\<lambda>m kv. AList.update (fst kv) (snd kv) m) m0 xs) = map_of m0 ++ map_of (rev xs)"
proof (induction xs arbitrary: m0)
  case Nil
  then show ?case by simp
next
  case (Cons x xs)
  obtain k v where x: "x = (k, v)" by (cases x)
  have "map_of (foldl (\<lambda>m kv. AList.update (fst kv) (snd kv) m) m0 (x # xs))
          = map_of (AList.update k v m0) ++ map_of (rev xs)"
    using Cons.IH x by simp
  also have "map_of (AList.update k v m0) = (map_of m0)(k \<mapsto> v)"
    by (rule update_conv')
  also have "(map_of m0)(k \<mapsto> v) ++ map_of (rev xs) = map_of m0 ++ map_of (rev (x # xs))"
    by (rule ext) (auto simp: x map_add_def split: option.splits)
  finally show ?case .
qed

lemma distinct_map_of_rev: "distinct (map fst xs) \<Longrightarrow> map_of (rev xs) = map_of xs"
proof -
  assume d: "distinct (map fst xs)"
  then have "distinct (map fst (rev xs))" by (simp add: rev_map [symmetric])
  with d show ?thesis by (simp add: map_of_inject_set)
qed

lemma map_of_labelsMerge:
  assumes "wf_map a" and "wf_map b"
  shows "map_of (labelsMerge a b) = map_of a ++ map_of b"
proof -
  from assms have "map_of (rev a) = map_of a" "map_of (rev b) = map_of b"
    by (simp_all add: wf_map_def distinct_map_of_rev)
  then show ?thesis by (simp add: labelsMerge_def map_of_foldl_update)
qed

lemma diffStep_decision:
  "diffStep addFin current (toCreate, toUpdate) n =
     (case diffDecision current n of
        Create \<Rightarrow> (toCreate @ [n], toUpdate)
      | Update \<Rightarrow> (toCreate, toUpdate @ [mergeOnto addFin (hd (filter (\<lambda>c. cm_Name c = cm_Name n) current)) n])
      | NoOp \<Rightarrow> (toCreate, toUpdate))"
proof -
  have e: "(\<lambda>currentCM. cm_Name n = cm_Name currentCM) = (\<lambda>c. cm_Name c = cm_Name n)" by auto
  show ?thesis
    by (cases "filter (\<lambda>c. cm_Name c = cm_Name n) current")
       (simp_all add: diffStep_def diffDecision_def find_filter e deepEqualMap_iff mergeOnto_def Let_def)
qed

lemma diffLoop:
  "foldl (diffStep addFin current) (toCreate, toUpdate) desired =
     (toCreate @ filter (\<lambda>n. diffDecision current n = Create) desired,
      toUpdate @ map (\<lambda>n. mergeOnto addFin (hd (filter (\<lambda>c. cm_Name c = cm_Name n) current)) n)
                   (filter (\<lambda>n. diffDecision current n = Update) desired))"
proof (induction desired arbitrary: toCreate toUpdate)
  case Nil
  then show ?case by simp
next
  case (Cons n ns)
  show ?case
    by (cases "diffDecision current n") (simp_all add: diffStep_decision Cons.IH)
qed

lemma rulesCMDiff_eq:
  "rulesCMDiff addFin current desired =
     (filter (\<lambda>n. diffDecision current n = Create) desired,
      map (\<lambda>n. mergeOnto addFin (hd (filter (\<lambda>c. cm_Name c = cm_Name n) current)) n)
        (filter (\<lambda>n. diffDecision current n = Update) desired))"
proof (cases "desired = []")
  case True
  then show ?thesis by (simp add: rulesCMDiff_def)
next
  case False
  note d = False
  show ?thesis
  proof (cases "current = []")
    case True
    then have "diffDecision current n = Create" for n by (simp add: diffDecision_def)
    with True d show ?thesis by (simp add: rulesCMDiff_def)
  next
    case False
    with d show ?thesis by (simp add: rulesCMDiff_def diffLoop)
  qed
qed

lemma mergeOnto_Name: "cm_Name (mergeOnto addFin c n) = cm_Name n"
  by (simp add: mergeOnto_def)

text \<open>
  C8: \<open>toCreate\<close> holds, in their order, the desired ConfigMaps whose name no current one
  has; \<open>toUpdate\<close> holds those with a current ConfigMap of the same name for which data,
  labels or merged annotations differ from it, each with the annotations merged (the
  current ones as base, the desired ones win) and the finalizers given by \<open>AddFinalizer\<close>
  from the current object; all others are left out.  A current ConfigMap whose name no
  desired one has is in neither list.
\<close>

theorem rulesCMDiff_classifies:
  "fst (rulesCMDiff addFinalizer current desired) = filter (\<lambda>n. diffDecision current n = Create) desired
   \<and> snd (rulesCMDiff addFinalizer current desired)
       = map (\<lambda>n. mergeOnto addFinalizer (hd (filter (\<lambda>c. cm_Name c = cm_Name n) current)) n)
           (filter (\<lambda>n. diffDecision current n = Update) desired)
   \<and> (\<forall>n. diffDecision current n = Create \<longleftrightarrow> cm_Name n \<notin> cm_Name ` set current)
   \<and> (wf_map a \<and> wf_map b \<longrightarrow> map_of (labelsMerge a b) = map_of a ++ map_of b)
   \<and> (\<forall>c \<in> set current. cm_Name c \<notin> cm_Name ` set desired \<longrightarrow>
         cm_Name c \<notin> cm_Name ` (set (fst (rulesCMDiff addFinalizer current desired))
                                   \<union> set (snd (rulesCMDiff addFinalizer current desired))))"
proof (intro conjI allI impI ballI)
  show "fst (rulesCMDiff addFinalizer current desired) = filter (\<lambda>n. diffDecision current n = Create) desired"
    by (simp add: rulesCMDiff_eq)
  show "snd (rulesCMDiff addFinalizer current desired)
       = map (\<lambda>n. mergeOnto addFinalizer (hd (filter (\<lambda>c. cm_Name c = cm_Name n) current)) n)
           (filter (\<lambda>n. diffDecision current n = Update) desired)"
    by (simp add: rulesCMDiff_eq)
next
  fix n
  show "diffDecision current n = Create \<longleftrightarrow> cm_Name n \<notin> cm_Name ` set current"
  proof (cases "filter (\<lambda>c. cm_Name c = cm_Name n) current")
    case Nil
    then have "cm_Name n \<notin> cm_Name ` set current"
      by (auto simp: filter_empty_conv)
    with Nil show ?thesis by (simp add: diffDecision_def)
  next
    case (Cons x xs)
    then have "x \<in> set (filter (\<lambda>c. cm_Name c = cm_Name n) current)" by simp
    then have "x \<in> set current" "cm_Name x = cm_Name n" by simp_all
    then have "cm_Name n \<in> cm_Name ` set current" by (metis imageI)
    with Cons show ?thesis by (simp add: diffDecision_def)
  qed
next
  assume "wf_map a \<and> wf_map b"
  then show "map_of (labelsMerge a b) = map_of a ++ map_of b"
    by (simp add: map_of_labelsMerge)
next
  fix c assume "c \<in> set current" "cm_Name c \<notin> cm_Name ` set desired"
  then show "cm_Name c \<notin> cm_Name ` (set (fst (rulesCMDiff addFinalizer current desired))
                                   \<union> set (snd (rulesCMDiff addFinalizer current desired)))"
    by (auto simp: rulesCMDiff_eq mergeOnto_Name)
qed

theorem rulesCMDiff_classifies_witness:
  "rulesCMDiff (\<lambda>dst src. src)
     [exampleCM ''cm-0'' [(''k'', ''old'')] [(''f'', ''1'')], exampleCM ''cm-1'' [] [(''g'', ''2'')],
      exampleCM ''cm-9'' [] []]
     [exampleCM ''cm-0'' [(''k'', ''new'')] [(''f'', ''1'')], exampleCM ''cm-1'' [] [(''g'', ''2'')],
      exampleCM ''cm-2'' [] [(''h'', ''3'')]]
   = ([exampleCM ''cm-2'' [] [(''h'', ''3'')]], [exampleCM ''cm-0'' [(''k'', ''new'')] [(''f'', ''1'')]])
   \<and> wf_map [(''k'', ''old'')] \<and> wf_map [(''k'', ''new'')]
   \<and> map_of (labelsMerge [(''k'', ''old'')] [(''k'', ''new'')]) = map_of [(''k'', ''old'')] ++ map_of [(''k'', ''new'')]"
proof -
  let ?cur = "[exampleCM ''cm-0'' [(''k'', ''old'')] [(''f'', ''1'')], exampleCM ''cm-1'' [] [(''g'', ''2'')],
      exampleCM ''cm-9'' [] []]"
  let ?new = "[exampleCM ''cm-0'' [(''k'', ''new'')] [(''f'', ''1'')], exampleCM ''cm-1'' [] [(''g'', ''2'')],
      exampleCM ''cm-2'' [] [(''h'', ''3'')]]"
  have w: "wf_map [(''k'', ''old'')] \<and> wf_map [(''k'', ''new'')]" by (simp add: wf_map_def)
  have d: "diffDecision ?cur (exampleCM ''cm-0'' [(''k'', ''new'')] [(''f'', ''1'')]) = Update"
    "diffDecision ?cur (exampleCM ''cm-1'' [] [(''g'', ''2'')]) = NoOp"
    "diffDecision ?cur (exampleCM ''cm-2'' [] [(''h'', ''3'')]) = Create"
    unfolding diffDecision_def deepEqualMap_iff [symmetric]
    by (simp_all add: exampleCM_def deepEqualMap_def labelsMerge_def)
  have m: "mergeOnto (\<lambda>dst src. src) (exampleCM ''cm-0'' [(''k'', ''old'')] [(''f'', ''1'')])
             (exampleCM ''cm-0'' [(''k'', ''new'')] [(''f'', ''1'')])
           = exampleCM ''cm-0'' [(''k'', ''new'')] [(''f'', ''1'')]"
    by (simp add: mergeOnto_def exampleCM_def labelsMerge_def)
  have nm: "cm_Name (exampleCM n a d) = n" for n a d
    by (simp add: exampleCM_def)
  note t = rulesCMDiff_classifies [of "\<lambda>dst src. src" ?cur ?new "[(''k'', ''old'')]" "[(''k'', ''new'')]"]
  have 1: "fst (rulesCMDiff (\<lambda>dst src. src) ?cur ?new) = [exampleCM ''cm-2'' [] [(''h'', ''3'')]]"
    unfolding t [THEN conjunct1] by (simp add: d)
  have 2: "snd (rulesCMDiff (\<lambda>dst src. src) ?cur ?new)
      = [exampleCM ''cm-0'' [(''k'', ''new'')] [(''f'', ''1'')]]"
    unfolding t [THEN conjunct2, THEN conjunct1] by (simp add: d nm m)
  from t w have 3: "map_of (labelsMerge [(''k'', ''old'')] [(''k'', ''new'')])
      = map_of [(''k'', ''old'')] ++ map_of [(''k'', ''new'')]" by blast
  from 1 2 3 show ?thesis using w by (simp add: prod_eq_iff)
qed

section \<open>The fast path of the applier\<close>

lemma getCurrentCMs_length:
  "getCurrentCMs e w new cur = Inr cur' \<Longrightarrow> length cur' = length cur"
  by (induction e w new cur rule: getCurrentCMs.induct) (auto split: sum.splits if_splits)

lemma select_empty:
  "selectRulesUpdateStatus (memEnv 524288 []) exampleVMAlert emptyWorld =
     (Inr [(''default-vmalert.yaml'', defAlert)],
      emptyWorld\<lparr>w_statusWrites := [(''x.default.vmalert'', []), (''x.default.vmalert'', [])]\<rparr>)"
  by (simp add: selectRulesUpdateStatus_def memEnv_def selectedRules_def renderRules_def
        injectDefault_def statusWrite_def exampleVMAlert_def emptyWorld_def Let_def)

lemma currentCMs_never_empty:
  assumes "getCurrentCMs e w (enumerate 0 (makeRulesConfigMaps m fin cr rf))
             (replicate (length (makeRulesConfigMaps m fin cr rf)) zeroConfigMap) = Inr cur"
  shows "length cur \<noteq> 0"
  using getCurrentCMs_length [OF assms] packBuckets_nonempty [of m rf]
  by (simp add: makeRulesConfigMaps_length)

text \<open>
  C9 on the code: on a cluster without any ConfigMap and with no rule selected,
  \<open>CreateOrUpdateRuleConfigMaps\<close> does create the one desired ConfigMap, but through
  \<open>rulesCMDiff\<close> and the loop over \<open>toCreate\<close> (the log line is the one of that loop), and it
  then triggers the reload of the pods, which the fast path does not do.  \<open>currentCMs\<close> has
  the length of \<open>newConfigMaps\<close>, which is never empty, so the fast path is never taken.
\<close>

theorem CreateOrUpdateRuleConfigMaps_empty_cluster:
  "fst (CreateOrUpdateRuleConfigMaps (memEnv 524288 []) exampleVMAlert emptyWorld)
     = Inr [''vm-x-rulefiles-0'']
   \<and> w_logs (snd (CreateOrUpdateRuleConfigMaps (memEnv 524288 []) exampleVMAlert emptyWorld))
     = [LogCreatingAdditional ''vm-x-rulefiles-0'', LogTriggerReload]
   \<and> w_podAnnotationUpdates (snd (CreateOrUpdateRuleConfigMaps (memEnv 524288 []) exampleVMAlert emptyWorld))
     = [([], ''default'')]
   \<and> map cm_Name (w_ConfigMaps (snd (CreateOrUpdateRuleConfigMaps (memEnv 524288 []) exampleVMAlert emptyWorld)))
     = [''vm-x-rulefiles-0'']"
proof -
  let ?e = "memEnv 524288 []"
  let ?w1 = "emptyWorld\<lparr>w_statusWrites := [(''x.default.vmalert'', []), (''x.default.vmalert'', [])]\<rparr>"
  let ?cm = "(makeRulesConfigMap ''apps.victoriametrics.com/finalizer'' exampleVMAlert
               [(''default-vmalert.yaml'', defAlert)])\<lparr>cm_Name := ''vm-x-rulefiles-0''\<rparr>"
  have env: "env_MaxConfigMapDataSize ?e = 524288"
    "env_FinalizerName ?e = ''apps.victoriametrics.com/finalizer''"
    "env_Get ?e = memGet" "env_Create ?e = memCreate" "env_Update ?e = memUpdate"
    "env_AddFinalizer ?e = (\<lambda>dst src. src)"
    "env_FreeIfNeeded ?e = (\<lambda>cm w. (None, w))"
    "env_UpdatePodAnnotations ?e =
       (\<lambda>podLabels ns w. (None, w\<lparr>w_podAnnotationUpdates := w_podAnnotationUpdates w @ [(podLabels, ns)]\<rparr>))"
    by (simp_all add: memEnv_def)
  have new: "makeRulesConfigMaps 524288 ''apps.victoriametrics.com/finalizer'' exampleVMAlert
               [(''default-vmalert.yaml'', defAlert)] = [?cm]"
    using makeRulesConfigMaps_single [of defAlert 524288 "''apps.victoriametrics.com/finalizer''"
        exampleVMAlert "''default-vmalert.yaml''"]
    by (simp add: defAlert_length exampleVMAlert_def)
  have name: "cm_Name ?cm = ''vm-x-rulefiles-0''" "cm_Namespace ?cm = ''default''"
    by (simp_all add: makeRulesConfigMap_def exampleVMAlert_def)
  have cr: "cr_IsUnmanaged exampleVMAlert = False" "cr_PodLabels exampleVMAlert = []"
    "cr_Namespace exampleVMAlert = ''default''"
    by (simp_all add: exampleVMAlert_def)
  have cur: "getCurrentCMs ?e ?w1 [(0, ?cm)] (replicate (Suc 0) zeroConfigMap)
               = Inr [zeroConfigMap]"
    by (simp add: env memGet_def emptyWorld_def IsNotFound_def)
  have diff: "rulesCMDiff (\<lambda>dst src. src) [zeroConfigMap] [?cm] = ([?cm], [])"
    by (simp add: rulesCMDiff_def diffStep_def zeroConfigMap_def name)
  have create: "createConfigMaps LogCreatingAdditional ''failed to create new rules Configmap: '' ?e [?cm] ?w1
                = (None, ?w1\<lparr>w_ConfigMaps := [?cm], w_logs := [LogCreatingAdditional ''vm-x-rulefiles-0'']\<rparr>)"
    by (simp add: env memCreate_def logInfo_def emptyWorld_def name)
  have "CreateOrUpdateRuleConfigMaps ?e exampleVMAlert emptyWorld =
     (Inr [''vm-x-rulefiles-0''],
      triggerReload ?e exampleVMAlert
        (?w1\<lparr>w_ConfigMaps := [?cm], w_logs := [LogCreatingAdditional ''vm-x-rulefiles-0'']\<rparr>))"
    unfolding CreateOrUpdateRuleConfigMaps_def select_empty
    by (simp add: env new cur diff create name cr Let_def
          del: getCurrentCMs.simps createConfigMaps.simps replicate.simps One_nat_def)
  then show ?thesis
    by (simp add: triggerReload_def env logInfo_def emptyWorld_def cr)
qed

end
